theory Spec2Isabelle
  imports Main
begin

section \<open>Memory, characters and the C library\<close>

text \<open>
  A C buffer is modelled by the list of the bytes that lie at and after the pointer
  (\<open>s[k]\<close> is the \<open>k\<close>-th element). A read outside the list yields the NUL byte:
  the modelled region is taken to be followed by NUL bytes, as a C string is by its
  terminator. Indices and lengths are C \<open>int\<close>s, modelled by \<open>int\<close>; no
  arithmetic of the scanner overflows on buffers shorter than \<open>2^31 - 6\<close> bytes.
\<close>

definition NUL :: char where
  "NUL = CHR 0x00"

definition byte_at :: "string \<Rightarrow> int \<Rightarrow> char" where
  "byte_at s k = (if 0 \<le> k \<and> k < int (length s) then s ! nat k else NUL)"

text \<open>The memory from \<open>&s[k]\<close> on, and the C string (up to its terminator) found there.\<close>

definition mem_from :: "string \<Rightarrow> int \<Rightarrow> string" where
  "mem_from s k = (if k < 0 then [] else drop (nat k) s)"

definition c_str :: "string \<Rightarrow> int \<Rightarrow> string" where
  "c_str s k = takeWhile (\<lambda>c. c \<noteq> NUL) (mem_from s k)"

text \<open>
  \<open>strchr(str, c)\<close> on a string literal \<open>str\<close>, as the offset \<open>p - str\<close> of the first
  occurrence, \<open>None\<close> for the null pointer. The terminating NUL belongs to the string:
  \<open>strchr(str, 0)\<close> points at the terminator.
\<close>

fun strchr :: "string \<Rightarrow> char \<Rightarrow> nat option" where
  "strchr [] c = (if c = NUL then Some 0 else None)"
| "strchr (x # xs) c = (if x = c then Some 0 else map_option Suc (strchr xs c))"

text \<open>\<open>lit[k]\<close> for a string literal, whose terminator is at index \<open>length lit\<close>.\<close>

definition lit_at :: "string \<Rightarrow> nat \<Rightarrow> char" where
  "lit_at lit k = (if k < length lit then lit ! k else NUL)"

text \<open>\<open>memcmp(&s[k], lit, length lit) == 0\<close>.\<close>

definition memcmp_lit :: "string \<Rightarrow> int \<Rightarrow> string \<Rightarrow> bool" where
  "memcmp_lit s k lit = (map (\<lambda>j. byte_at s (k + int j)) [0..<length lit] = lit)"

section \<open>Error codes and token kinds\<close>

definition MJSON_ERROR_INVALID_INPUT :: int where
  "MJSON_ERROR_INVALID_INPUT = -1"

definition MJSON_ERROR_TOO_DEEP :: int where
  "MJSON_ERROR_TOO_DEEP = -2"

definition MJSON_TOK_INVALID :: int where "MJSON_TOK_INVALID = 0"
definition MJSON_TOK_KEY :: int where "MJSON_TOK_KEY = 1"
definition MJSON_TOK_STRING :: int where "MJSON_TOK_STRING = 11"
definition MJSON_TOK_NUMBER :: int where "MJSON_TOK_NUMBER = 12"
definition MJSON_TOK_TRUE :: int where "MJSON_TOK_TRUE = 13"
definition MJSON_TOK_FALSE :: int where "MJSON_TOK_FALSE = 14"
definition MJSON_TOK_NULL :: int where "MJSON_TOK_NULL = 15"
definition MJSON_TOK_ARRAY :: int where "MJSON_TOK_ARRAY = 91"
definition MJSON_TOK_OBJECT :: int where "MJSON_TOK_OBJECT = 123"

definition MJSON_TOK_IS_VALUE :: "int \<Rightarrow> bool" where
  "MJSON_TOK_IS_VALUE t = (t > 10 \<and> t < 20)"

definition MJSON_MAX_DEPTH :: int where
  "MJSON_MAX_DEPTH = 20"

section \<open>Escape codec\<close>

text \<open>The two tables of \<open>mjson_esc\<close>: the raw characters and their escape letters.\<close>

definition esc1 :: string where
  "esc1 = [CHR 0x08, CHR 0x0C, CHR 0x0A, CHR 0x0D, CHR 0x09, CHR 0x5C, CHR 0x22, CHR ''/'']"

definition esc2 :: string where
  "esc2 = [CHR ''b'', CHR ''f'', CHR ''n'', CHR ''r'', CHR ''t'', CHR 0x5C, CHR 0x22, CHR ''/'']"

text \<open>
  \<open>mjson_esc(c, esc)\<close>: \<open>strchr\<close> converts its \<open>int\<close> argument to \<open>char\<close>
  (\<open>char_of\<close> keeps the low 8 bits); the result is the table entry as an \<open>int\<close>.
\<close>

definition mjson_esc :: "int \<Rightarrow> int \<Rightarrow> int" where
  "mjson_esc c esc =
     (case strchr (if esc \<noteq> 0 then esc1 else esc2) (char_of c) of
        None \<Rightarrow> 0
      | Some k \<Rightarrow> if esc \<noteq> 0 then of_char (lit_at esc2 k) else of_char (lit_at esc1 k))"


section \<open>String scanning\<close>

text \<open>
  \<open>mjson_pass_string(s, len)\<close>: the \<open>for\<close> loop over \<open>i\<close>, as a recursion on
  \<open>i\<close>. The argument of \<open>mjson_esc\<close> is the promoted \<open>char\<close>; \<open>mjson_esc\<close>
  only looks at its low 8 bits.
\<close>

function pass_string_loop :: "string \<Rightarrow> int \<Rightarrow> int \<Rightarrow> int" where
  "pass_string_loop s len i =
     (if i < len then
        (if byte_at s i = CHR 0x5C \<and> i + 1 < len \<and> mjson_esc (of_char (byte_at s (i + 1))) 1 \<noteq> 0
         then pass_string_loop s len (i + 1 + 1)
         else if byte_at s i = NUL then MJSON_ERROR_INVALID_INPUT
         else if byte_at s i = CHR 0x22 then i
         else pass_string_loop s len (i + 1))
      else MJSON_ERROR_INVALID_INPUT)"
  by pat_completeness auto
termination
  by (relation "measure (\<lambda>(s, len, i). nat (len - i))") auto

declare pass_string_loop.simps [simp del]

definition mjson_pass_string :: "string \<Rightarrow> int \<Rightarrow> int" where
  "mjson_pass_string s len = pass_string_loop s len 0"

section \<open>The C library's strtod\<close>

text \<open>
  \<open>strtod\<close> belongs to the C library, not to the repository. The scanner and the path
  resolver take it as a parameter \<open>sd\<close>: given the C string at the pointer, \<open>sd\<close>
  returns the converted value cast to \<open>int\<close> (the only use the modelled code makes of
  the value) and the number of characters consumed (\<open>end - ptr\<close>). Theorems about all
  inputs hold for every such function.
\<close>

type_synonym strtod_fn = "string \<Rightarrow> int \<times> nat"

text \<open>The test \<open>c >= '0' && c <= '9'\<close> of the scanner.\<close>

definition is_digit :: "char \<Rightarrow> bool" where
  "is_digit c = ((48::nat) \<le> of_char c \<and> of_char c \<le> (57::nat))"

text \<open>
  Modelled from the spec: the function \<open>strtod\<close>, which the source calls and does
  not contain. \<open>c_strtod\<close> is the instance used on concrete inputs. It follows the
  grammar the specification names (optional sign, digits, optional fraction, optional
  exponent), after leading white space; this is the decimal form of the C standard,
  whose hexadecimal, infinity and NaN forms are left out. The value is the exact
  decimal value truncated towards zero.
\<close>

definition is_space :: "char \<Rightarrow> bool" where
  "is_space c = (c \<in> set [CHR '' '', CHR 0x09, CHR 0x0A, CHR 0x0B, CHR 0x0C, CHR 0x0D])"

definition digit_val :: "char \<Rightarrow> nat" where
  "digit_val c = of_char c - 48"

definition digits_val :: "string \<Rightarrow> nat" where
  "digits_val ds = foldl (\<lambda>a c. 10 * a + digit_val c) 0 ds"

text \<open>The exponent part: \<open>e\<close> or \<open>E\<close>, an optional sign, and at least one digit.\<close>

definition exponent_part :: "string \<Rightarrow> int \<times> nat" where
  "exponent_part r =
     (case r of
        [] \<Rightarrow> (0, 0)
      | e # r1 \<Rightarrow>
          if e = CHR ''e'' \<or> e = CHR ''E'' then
            (let sgn = (case r1 of [] \<Rightarrow> [] | c # _ \<Rightarrow> if c = CHR ''+'' \<or> c = CHR ''-'' then [c] else []);
                 r2 = drop (length sgn) r1;
                 ds = takeWhile is_digit r2
             in if ds = [] then (0, 0)
                else ((if sgn = [CHR ''-''] then - int (digits_val ds) else int (digits_val ds)),
                      1 + length sgn + length ds))
          else (0, 0))"

definition c_strtod :: strtod_fn where
  "c_strtod str =
     (let ws = takeWhile is_space str;
          r0 = drop (length ws) str;
          sgn = (case r0 of [] \<Rightarrow> [] | c # _ \<Rightarrow> if c = CHR ''+'' \<or> c = CHR ''-'' then [c] else []);
          r1 = drop (length sgn) r0;
          ip = takeWhile is_digit r1;
          r2 = drop (length ip) r1;
          dot = (case r2 of [] \<Rightarrow> [] | c # _ \<Rightarrow> if c = CHR ''.'' then [c] else []);
          fp = (if dot = [] then [] else takeWhile is_digit (drop 1 r2));
          r3 = drop (length dot + length fp) r2
      in if ip = [] \<and> fp = [] then (0, 0)
         else
           (let (ex, exlen) = exponent_part r3;
                m = digits_val (ip @ fp);
                sh = ex - int (length fp);
                mag = (if 0 \<le> sh then int m * 10 ^ nat sh else int m div 10 ^ nat (- sh))
            in ((if sgn = [CHR ''-''] then - mag else mag),
                length ws + length sgn + length ip + length dot + length fp + exlen)))"


section \<open>The tokenizer\<close>

datatype expect = S_VALUE | S_KEY | S_COLON | S_COMMA_OR_EOO

text \<open>The event sink \<open>mjson_cb_t\<close>: \<open>cb(ev, s, off, len, ud)\<close> updates the user data.\<close>

type_synonym 'ud mjson_cb_t = "int \<Rightarrow> string \<Rightarrow> int \<Rightarrow> int \<Rightarrow> 'ud \<Rightarrow> 'ud"

text \<open>
  The local variables of \<open>mjson\<close>. \<open>nesting\<close> is the stack memory at and around the
  array \<open>unsigned char nesting[MJSON_MAX_DEPTH]\<close>, addressed by the C index: the array
  itself is the indices \<open>0 .. MJSON_MAX_DEPTH - 1\<close>, and the flag \<open>oob\<close> records that
  a read has used an index outside the array (every write follows the check
  \<open>depth >= sizeof(nesting)\<close>). \<open>st_i\<close> and \<open>st_tok\<close> are the variables \<open>i\<close> and
  \<open>tok\<close>, and \<open>ud\<close> is the state of the event sink.
\<close>

record 'ud mjson_st =
  expecting :: expect
  nesting :: "int \<Rightarrow> char"
  st_i :: int
  depth :: int
  st_tok :: int
  ud :: 'ud
  oob :: bool

text \<open>
  What a piece of the loop body does: \<open>Return\<close> leaves \<open>mjson\<close> with a value,
  \<open>Continue\<close> goes on with the next statement.
\<close>

datatype 'ud outcome = Return int "'ud mjson_st" | Continue "'ud mjson_st"

definition then_do :: "'ud outcome \<Rightarrow> ('ud mjson_st \<Rightarrow> 'ud outcome) \<Rightarrow> 'ud outcome" where
  "then_do r f = (case r of Return v st \<Rightarrow> Return v st | Continue st \<Rightarrow> f st)"

text \<open>The macro \<open>MJSONCALL(ev)\<close>: \<open>if (cb) cb(ev, s, start, i - start + 1, ud)\<close>.\<close>

definition MJSONCALL ::
  "'ud mjson_cb_t option \<Rightarrow> string \<Rightarrow> int \<Rightarrow> int \<Rightarrow> 'ud mjson_st \<Rightarrow> 'ud mjson_st" where
  "MJSONCALL cb s ev start st =
     (case cb of
        None \<Rightarrow> st
      | Some f \<Rightarrow> st\<lparr>ud := f ev s start (st_i st - start + 1) (ud st)\<rparr>)"

text \<open>Reading \<open>nesting[k]\<close>: the flag is raised when \<open>k\<close> is outside the array.\<close>

definition nesting_chk :: "int \<Rightarrow> 'ud mjson_st \<Rightarrow> 'ud mjson_st" where
  "nesting_chk k st = st\<lparr>oob := oob st \<or> \<not> (0 \<le> k \<and> k < MJSON_MAX_DEPTH)\<rparr>"

text \<open>The macro \<open>MJSONEOO()\<close>, for the current byte \<open>c\<close>.\<close>

definition MJSONEOO ::
  "'ud mjson_cb_t option \<Rightarrow> string \<Rightarrow> char \<Rightarrow> int \<Rightarrow> 'ud mjson_st \<Rightarrow> 'ud outcome" where
  "MJSONEOO cb s c start st =
     (let st1 = nesting_chk (depth st - 1) st in
      if (of_char c :: int) \<noteq> of_char (nesting st1 (depth st1 - 1)) + 2
      then Return MJSON_ERROR_INVALID_INPUT st1
      else
        (let st2 = st1\<lparr>depth := depth st1 - 1\<rparr> in
         if depth st2 = 0 then Return (st_i st2 + 1) (MJSONCALL cb s (st_tok st2) start st2)
         else Continue st2))"

text \<open>The end of the loop body: the statement after the \<open>switch\<close>, and \<open>i++\<close>.\<close>

definition loop_end ::
  "'ud mjson_cb_t option \<Rightarrow> string \<Rightarrow> int \<Rightarrow> 'ud mjson_st \<Rightarrow> 'ud outcome" where
  "loop_end cb s start st =
     (let st1 = MJSONCALL cb s (st_tok st) start st in Continue (st1\<lparr>st_i := st_i st1 + 1\<rparr>))"

text \<open>
  \<open>case S_VALUE\<close>, from \<open>else if (c == ']')\<close> on: the branches that fall through to
  \<open>if (depth == 0)\<close>.
\<close>

definition scan_atom ::
  "strtod_fn \<Rightarrow> 'ud mjson_cb_t option \<Rightarrow> string \<Rightarrow> int \<Rightarrow> char \<Rightarrow> int \<Rightarrow> 'ud mjson_st
     \<Rightarrow> 'ud outcome" where
  "scan_atom sd cb s len c start st =
     (let i = st_i st in
      if c = CHR '']'' then MJSONEOO cb s c start st
      else if c = CHR ''t'' \<and> i + 3 < len \<and> memcmp_lit s i ''true''
        then Continue (st\<lparr>st_i := i + 3, st_tok := MJSON_TOK_TRUE\<rparr>)
      else if c = CHR ''n'' \<and> i + 3 < len \<and> memcmp_lit s i ''null''
        then Continue (st\<lparr>st_i := i + 3, st_tok := MJSON_TOK_NULL\<rparr>)
      else if c = CHR ''f'' \<and> i + 4 < len \<and> memcmp_lit s i ''false''
        then Continue (st\<lparr>st_i := i + 4, st_tok := MJSON_TOK_FALSE\<rparr>)
      else if c = CHR ''-'' \<or> is_digit c
        then Continue (st\<lparr>st_i := i + (int (snd (sd (c_str s i))) - 1), st_tok := MJSON_TOK_NUMBER\<rparr>)
      else if c = CHR 0x22 then
        (let n = mjson_pass_string (mem_from s (i + 1)) (len - i - 1) in
         if n < 0 then Return n st
         else Continue (st\<lparr>st_i := i + (n + 1), st_tok := MJSON_TOK_STRING\<rparr>))
      else Return MJSON_ERROR_INVALID_INPUT st)"

definition scan_value ::
  "strtod_fn \<Rightarrow> 'ud mjson_cb_t option \<Rightarrow> string \<Rightarrow> int \<Rightarrow> char \<Rightarrow> int \<Rightarrow> 'ud mjson_st
     \<Rightarrow> 'ud outcome" where
  "scan_value sd cb s len c start st =
     (if c = CHR ''{'' then
        (if depth st \<ge> MJSON_MAX_DEPTH then Return MJSON_ERROR_TOO_DEEP st
         else loop_end cb s start
                (st\<lparr>nesting := (nesting st)(depth st := c), depth := depth st + 1,
                    expecting := S_KEY\<rparr>))
      else if c = CHR ''['' then
        (if depth st \<ge> MJSON_MAX_DEPTH then Return MJSON_ERROR_TOO_DEEP st
         else loop_end cb s start
                (st\<lparr>nesting := (nesting st)(depth st := c), depth := depth st + 1\<rparr>))
      else
        then_do (scan_atom sd cb s len c start st)
          (\<lambda>st1. if depth st1 = 0
                 then Return (st_i st1 + 1) (MJSONCALL cb s (st_tok st1) start st1)
                 else loop_end cb s start (st1\<lparr>expecting := S_COMMA_OR_EOO\<rparr>)))"

definition scan_key ::
  "'ud mjson_cb_t option \<Rightarrow> string \<Rightarrow> int \<Rightarrow> char \<Rightarrow> int \<Rightarrow> 'ud mjson_st \<Rightarrow> 'ud outcome" where
  "scan_key cb s len c start st =
     (let i = st_i st in
      if c = CHR 0x22 then
        (let n = mjson_pass_string (mem_from s (i + 1)) (len - i - 1) in
         if n < 0 then Return n st
         else loop_end cb s start
                (st\<lparr>st_i := i + (n + 1), st_tok := MJSON_TOK_KEY, expecting := S_COLON\<rparr>))
      else if c = CHR ''}'' then
        then_do (MJSONEOO cb s c start st)
          (\<lambda>st1. loop_end cb s start (st1\<lparr>expecting := S_COMMA_OR_EOO\<rparr>))
      else Return MJSON_ERROR_INVALID_INPUT st)"

definition scan_colon ::
  "'ud mjson_cb_t option \<Rightarrow> string \<Rightarrow> char \<Rightarrow> int \<Rightarrow> 'ud mjson_st \<Rightarrow> 'ud outcome" where
  "scan_colon cb s c start st =
     (if c = CHR '':'' then loop_end cb s start (st\<lparr>expecting := S_VALUE\<rparr>)
      else Return MJSON_ERROR_INVALID_INPUT st)"

definition scan_comma_or_eoo ::
  "'ud mjson_cb_t option \<Rightarrow> string \<Rightarrow> char \<Rightarrow> int \<Rightarrow> 'ud mjson_st \<Rightarrow> 'ud outcome" where
  "scan_comma_or_eoo cb s c start st =
     (if depth st \<le> 0 then Return MJSON_ERROR_INVALID_INPUT st
      else if c = CHR '','' then
        (let st1 = nesting_chk (depth st - 1) st in
         loop_end cb s start
           (st1\<lparr>expecting := (if nesting st1 (depth st1 - 1) = CHR ''{'' then S_KEY else S_VALUE)\<rparr>))
      else if c = CHR '']'' \<or> c = CHR ''}'' then
        then_do (MJSONEOO cb s c start st) (loop_end cb s start)
      else Return MJSON_ERROR_INVALID_INPUT st)"

text \<open>One turn of the \<open>for\<close> loop, entered with \<open>i < len\<close>.\<close>

definition mjson_body ::
  "strtod_fn \<Rightarrow> 'ud mjson_cb_t option \<Rightarrow> string \<Rightarrow> int \<Rightarrow> 'ud mjson_st \<Rightarrow> 'ud outcome" where
  "mjson_body sd cb s len st0 =
     (let start = st_i st0;
          c = byte_at s (st_i st0);
          st = st0\<lparr>st_tok := of_char c\<rparr>
      in if c = CHR '' '' \<or> c = CHR 0x09 \<or> c = CHR 0x0A \<or> c = CHR 0x0D
         then Continue (st\<lparr>st_i := st_i st + 1\<rparr>)
         else (case expecting st of
                 S_VALUE \<Rightarrow> scan_value sd cb s len c start st
               | S_KEY \<Rightarrow> scan_key cb s len c start st
               | S_COLON \<Rightarrow> scan_colon cb s c start st
               | S_COMMA_OR_EOO \<Rightarrow> scan_comma_or_eoo cb s c start st))"


text \<open>
  What the caller of \<open>mjson\<close> gets: the returned \<open>int\<close>, the user data as the sink
  has left it, and whether \<open>nesting\<close> has been used outside its bounds.
\<close>

record 'ud mjson_result =
  ret :: int
  user :: 'ud
  stack_oob :: bool

definition returned :: "int \<Rightarrow> 'ud mjson_st \<Rightarrow> 'ud mjson_result" where
  "returned r st = \<lparr>ret = r, user = ud st, stack_oob = oob st\<rparr>"

text \<open>
  The \<open>for\<close> loop. It ends: every turn moves \<open>i\<close> forward, except a number of which
  \<open>strtod\<close> consumes nothing, and that turn leaves the mode \<open>S_VALUE\<close>.
\<close>

function mjson_loop ::
  "strtod_fn \<Rightarrow> 'ud mjson_cb_t option \<Rightarrow> string \<Rightarrow> int \<Rightarrow> 'ud mjson_st \<Rightarrow> 'ud mjson_result" where
  "mjson_loop sd cb s len st =
     (if st_i st < len then
        (case mjson_body sd cb s len st of
           Return r st' \<Rightarrow> returned r st'
         | Continue st' \<Rightarrow> mjson_loop sd cb s len st')
      else returned MJSON_ERROR_INVALID_INPUT st)"
  by pat_completeness auto
termination
proof (relation "inv_image (less_than <*lex*> less_than)
    (\<lambda>(sd, cb, s, len, st). (nat (len - st_i st), if expecting st = S_VALUE then 1 else (0::nat)))")
  show "wf (inv_image (less_than <*lex*> less_than)
    (\<lambda>(sd, cb, s, len, st). (nat (len - st_i st), if expecting st = S_VALUE then 1 else (0::nat))))"
    by (intro wf_inv_image wf_lex_prod wf_less_than)
next
  fix sd :: strtod_fn and cb :: "'ud mjson_cb_t option" and s len
    and st st' :: "'ud mjson_st"
  assume "st_i st < len" and "mjson_body sd cb s len st = Continue st'"
  then have "nat (len - st_i st') < nat (len - st_i st) \<or>
    (nat (len - st_i st') = nat (len - st_i st) \<and> expecting st = S_VALUE \<and> expecting st' \<noteq> S_VALUE)"
    by (auto simp: mjson_body_def scan_value_def scan_key_def scan_colon_def scan_comma_or_eoo_def
         scan_atom_def loop_end_def MJSONCALL_def MJSONEOO_def nesting_chk_def then_do_def Let_def
         split: if_splits expect.splits option.splits outcome.splits)
  then show "((sd, cb, s, len, st'), (sd, cb, s, len, st)) \<in> inv_image (less_than <*lex*> less_than)
    (\<lambda>(sd, cb, s, len, st). (nat (len - st_i st), if expecting st = S_VALUE then 1 else (0::nat)))"
    by auto
qed

declare mjson_loop.simps [simp del]

text \<open>
  \<open>mjson(s, len, cb, ud)\<close>. \<open>nest0\<close> is the content of the stack memory at and around
  \<open>nesting\<close> when the function is entered (the array is not initialised).
\<close>

definition mjson ::
  "strtod_fn \<Rightarrow> (int \<Rightarrow> char) \<Rightarrow> string \<Rightarrow> int \<Rightarrow> 'ud mjson_cb_t option \<Rightarrow> 'ud
     \<Rightarrow> 'ud mjson_result" where
  "mjson sd nest0 s len cb ud0 =
     mjson_loop sd cb s len
       \<lparr>expecting = S_VALUE, nesting = nest0, st_i = 0, depth = 0, st_tok = 0, ud = ud0,
        oob = False\<rparr>"


section \<open>The path resolver\<close>

text \<open>
  A destination pointer (\<open>const char **tokptr\<close>, \<open>int *toklen\<close>): the null pointer,
  a pointer to a cell that has not been written, or a pointer to a cell and the value
  stored there. A \<open>const char *\<close> into the buffer \<open>s\<close> is its offset from \<open>s\<close>.
\<close>

datatype 'a dest = Null | Uninit | Cell 'a

definition put :: "'a dest \<Rightarrow> 'a \<Rightarrow> 'a dest" where
  "put d v = (case d of Null \<Rightarrow> Null | Uninit \<Rightarrow> Cell v | Cell _ \<Rightarrow> Cell v)"

text \<open>
  \<open>struct msjon_find_data\<close>. The field \<open>overrun\<close> is not in the source: it records
  that the search for \<open>]\<close> in the path has left the memory of the path, after which
  the behaviour of the program is not modelled.
\<close>

record msjon_find_data =
  path :: string
  pos :: int
  d1 :: int
  d2 :: int
  i1 :: int
  i2 :: int
  obj :: int
  tokptr :: "int dest"
  toklen :: "int dest"
  tok :: int
  overrun :: bool

text \<open>\<open>memcmp(a + k, b + l, n) == 0\<close>.\<close>

definition memcmp_eq :: "string \<Rightarrow> int \<Rightarrow> string \<Rightarrow> int \<Rightarrow> int \<Rightarrow> bool" where
  "memcmp_eq a k b l n =
     (map (\<lambda>j. byte_at a (k + int j)) [0..<nat n] = map (\<lambda>j. byte_at b (l + int j)) [0..<nat n])"

text \<open>
  \<open>while (data->path[data->pos] != ']') data->pos++;\<close> gives the index of the first
  \<open>]\<close> at or after \<open>pos\<close>, and \<open>None\<close> when the memory of the path holds none.
\<close>

fun first_rbracket :: "string \<Rightarrow> nat option" where
  "first_rbracket [] = None"
| "first_rbracket (c # cs) = (if c = CHR '']'' then Some 0 else map_option Suc (first_rbracket cs))"

definition skip_to_rbracket :: "string \<Rightarrow> int \<Rightarrow> int option" where
  "skip_to_rbracket p k = map_option (\<lambda>j. k + int j) (first_rbracket (mem_from p k))"

definition mjson_find_cb :: "strtod_fn \<Rightarrow> msjon_find_data mjson_cb_t" where
  "mjson_find_cb sd ev s off len data =
     (if overrun data then data
      else if tok data \<noteq> MJSON_TOK_INVALID then data
      else if ev = of_char (CHR ''{'') then
        (let data1 = (if byte_at (path data) (pos data) = NUL \<and> d1 data = d2 data
                      then data\<lparr>obj := off\<rparr> else data)
         in data1\<lparr>d1 := d1 data1 + 1\<rparr>)
      else if ev = of_char (CHR ''['') then
        (let data1 =
               (if d1 data = d2 data \<and> byte_at (path data) (pos data) = CHR ''['' then
                  (let data0 = data\<lparr>i1 := 0, i2 := fst (sd (c_str (path data) (pos data + 1)))\<rparr>
                   in if i1 data0 = i2 data0
                      then data0\<lparr>d2 := d2 data0 + 1, pos := pos data0 + 3\<rparr>
                      else data0)
                else data);
             data2 = (if byte_at (path data1) (pos data1) = NUL \<and> d1 data1 = d2 data1
                      then data1\<lparr>obj := off\<rparr> else data1)
         in data2\<lparr>d1 := d1 data2 + 1\<rparr>)
      else if ev = of_char (CHR '','') then
        (if d1 data = d2 data + 1 then
           (let data1 = data\<lparr>i1 := i1 data + 1\<rparr>
            in if i1 data1 = i2 data1 then
                 (case skip_to_rbracket (path data1) (pos data1) of
                    None \<Rightarrow> data1\<lparr>overrun := True\<rparr>
                  | Some k \<Rightarrow> data1\<lparr>pos := k + 1, d2 := d2 data1 + 1\<rparr>)
               else data1)
         else data)
      else if ev = MJSON_TOK_KEY \<and> d1 data = d2 data + 1 \<and>
              byte_at (path data) (pos data) = CHR ''.'' \<and>
              memcmp_eq s (off + 1) (path data) (pos data + 1) (len - 2) then
        data\<lparr>d2 := d2 data + 1, pos := pos data + (len - 1)\<rparr>
      else if ev = of_char (CHR ''}'') \<or> ev = of_char (CHR '']'') then
        (let data1 = data\<lparr>d1 := d1 data - 1\<rparr>
         in if byte_at (path data1) (pos data1) = NUL \<and> d1 data1 = d2 data1 \<and> obj data1 \<noteq> - 1
            then data1\<lparr>tok := ev - 2, tokptr := put (tokptr data1) (obj data1),
                       toklen := put (toklen data1) (off - obj data1 + 1)\<rparr>
            else data1)
      else if MJSON_TOK_IS_VALUE ev then
        (if d1 data = d2 data \<and> byte_at (path data) (pos data) = NUL
         then data\<lparr>tok := ev, tokptr := put (tokptr data) off, toklen := put (toklen data) len\<rparr>
         else data)
      else data)"

text \<open>
  The result of \<open>mjson_find\<close>: the returned token kind and the two destinations.
  \<open>scanned\<close> tells whether \<open>mjson\<close> has been called, and if so what it returned and
  whether it used \<open>nesting\<close> outside its bounds.
\<close>

record find_result =
  tok_ret :: int
  ptr_out :: "int dest"
  len_out :: "int dest"
  scanned :: "(int \<times> bool) option"

text \<open>The initial value of \<open>data\<close> in \<open>mjson_find\<close>.\<close>

definition find_init :: "string \<Rightarrow> int dest \<Rightarrow> int dest \<Rightarrow> msjon_find_data" where
  "find_init jp tokptr0 toklen0 =
     \<lparr>path = jp, pos = 1, d1 = 0, d2 = 0, i1 = 0, i2 = 0, obj = - 1,
      tokptr = tokptr0, toklen = toklen0, tok = MJSON_TOK_INVALID, overrun = False\<rparr>"

text \<open>\<open>mjson_find(s, len, jp, tokptr, toklen)\<close>; \<open>None\<close> when the path has been overrun.\<close>

definition mjson_find ::
  "strtod_fn \<Rightarrow> (int \<Rightarrow> char) \<Rightarrow> string \<Rightarrow> int \<Rightarrow> string \<Rightarrow> int dest \<Rightarrow> int dest
     \<Rightarrow> find_result option" where
  "mjson_find sd nest0 s len jp tokptr0 toklen0 =
     (let data = find_init jp tokptr0 toklen0
      in if byte_at jp 0 \<noteq> CHR ''$'' then
           Some \<lparr>tok_ret = MJSON_TOK_INVALID, ptr_out = tokptr0, len_out = toklen0,
                 scanned = None\<rparr>
         else
           (let r = mjson sd nest0 s len (Some (mjson_find_cb sd)) data
            in if overrun (user r) then None
               else Some \<lparr>tok_ret = (if ret r < 0 then MJSON_TOK_INVALID else tok (user r)),
                          ptr_out = tokptr (user r), len_out = toklen (user r),
                          scanned = Some (ret r, stack_oob r)\<rparr>))"


section \<open>Decoding a string\<close>

text \<open>\<open>to[j] = c\<close> on the caller's buffer \<open>to\<close>; a write outside the buffer is not modelled.\<close>

definition poke :: "string \<Rightarrow> int \<Rightarrow> char \<Rightarrow> string" where
  "poke to j c = (if 0 \<le> j \<and> j < int (length to) then to[nat j := c] else to)"

text \<open>
  \<open>mjson_unescape(s, len, to, n)\<close>: the loop over \<open>i\<close> and \<open>j\<close> and the statements
  after it. The result is the returned \<open>int\<close> and the buffer \<open>to\<close>.
\<close>

function unescape_loop :: "string \<Rightarrow> int \<Rightarrow> int \<Rightarrow> int \<Rightarrow> int \<Rightarrow> string \<Rightarrow> int \<times> string" where
  "unescape_loop s len n i j to =
     (if i < len \<and> j < n then
        (if byte_at s i = CHR 0x5C \<and> i + 1 < len then
           (let c = mjson_esc (of_char (byte_at s (i + 1))) 0
            in if c = 0 then (- 1, to)
               else unescape_loop s len n (i + 1 + 1) (j + 1) (poke to j (char_of c)))
         else unescape_loop s len n (i + 1) (j + 1) (poke to j (byte_at s i)))
      else if j \<ge> n then (- 1, to)
      else (j, if n > 0 then poke to j NUL else to))"
  by pat_completeness auto
termination
  by (relation "measure (\<lambda>(s, len, n, i, j, to). nat (len - i))") auto

declare unescape_loop.simps [simp del]

definition mjson_unescape :: "string \<Rightarrow> int \<Rightarrow> string \<Rightarrow> int \<Rightarrow> int \<times> string" where
  "mjson_unescape s len to n = unescape_loop s len n 0 0 to"

text \<open>
  \<open>mjson_find_string(s, len, path, to, n)\<close>; \<open>p\<close> and \<open>sz\<close> are local variables that
  \<open>mjson_find\<close> fills in. \<open>None\<close> when the path has been overrun.
\<close>

definition mjson_find_string ::
  "strtod_fn \<Rightarrow> (int \<Rightarrow> char) \<Rightarrow> string \<Rightarrow> int \<Rightarrow> string \<Rightarrow> string \<Rightarrow> int
     \<Rightarrow> (int \<times> string) option" where
  "mjson_find_string sd nest0 s len jp to n =
     (case mjson_find sd nest0 s len jp Uninit Uninit of
        None \<Rightarrow> None
      | Some r \<Rightarrow>
          if tok_ret r \<noteq> MJSON_TOK_STRING then Some (0, to)
          else (case (ptr_out r, len_out r) of
                  (Cell p, Cell sz) \<Rightarrow> Some (mjson_unescape (mem_from s (p + 1)) (sz - 2) to n)
                | _ \<Rightarrow> None))"

text \<open>
  What the decoding is to produce, in the words of the specification: every backslash
  that has a byte after it stands, with that byte, for the character the escape codec
  maps the byte to, and fails when the codec knows no such escape letter; every other
  byte stands for itself.
\<close>

fun decoded :: "string \<Rightarrow> string option" where
  "decoded [] = Some []"
| "decoded [c] = Some [c]"
| "decoded (c # e # cs) =
     (if c = CHR 0x5C then
        (if mjson_esc (of_char e) 0 = 0 then None
         else map_option ((#) (char_of (mjson_esc (of_char e) 0))) (decoded cs))
      else map_option ((#) c) (decoded (e # cs)))"

section \<open>The printer\<close>

text \<open>The output sink \<open>mjson_print_fn_t\<close>: \<open>fn(ptr, len, ud)\<close> returns the bytes accepted.\<close>

type_synonym 'ud mjson_print_fn_t = "string \<Rightarrow> int \<Rightarrow> 'ud \<Rightarrow> int \<times> 'ud"

text \<open>\<open>struct mjson_fixed_buf\<close>: \<open>fb_ptr\<close> is the content of the memory at \<open>ptr\<close>.\<close>

record mjson_fixed_buf =
  fb_ptr :: string
  fb_size :: int
  fb_len :: int

definition mjson_fixed_buf_printer :: "mjson_fixed_buf mjson_print_fn_t" where
  "mjson_fixed_buf_printer p len fb =
     (let len1 = (if len > fb_size fb - fb_len fb then fb_size fb - fb_len fb else len);
          mem = foldl (\<lambda>m k. poke m (fb_len fb + int k) (byte_at p (int k))) (fb_ptr fb) [0..<nat len1]
      in (len1, fb\<lparr>fb_ptr := mem, fb_len := fb_len fb + len1\<rparr>))"

text \<open>
  \<open>mjson_print_int(n, fn, ud)\<close> for a 32-bit \<open>int\<close>. \<open>-n\<close> overflows for the least
  \<open>int\<close>, which is undefined behaviour in C: the result is \<open>None\<close> there. No other
  operation can overflow.
\<close>

function mjson_print_int :: "int \<Rightarrow> 'ud mjson_print_fn_t \<Rightarrow> 'ud \<Rightarrow> (int \<times> 'ud) option" where
  "mjson_print_int n fn u =
     (if n < 0 then
        (if n = - (2 ^ 31) then None
         else (case mjson_print_int (- n) fn (snd (fn ''-'' 1 u)) of
                 None \<Rightarrow> None
               | Some (r, u2) \<Rightarrow> Some (r + 1, u2)))
      else
        (case (if n > 10 then mjson_print_int (n div 10) fn u else Some (0, u)) of
           None \<Rightarrow> None
         | Some (len, u1) \<Rightarrow>
             (let (k, u2) = fn (mem_from ''0123456789'' (n mod 10)) 1 u1 in Some (len + k, u2))))"
  by pat_completeness auto
termination
  by (relation "measure (\<lambda>(n, fn, u). if n < 0 then nat (- n) + 1 else nat n)") auto

declare mjson_print_int.simps [simp del]

section \<open>Shapes of inputs\<close>

text \<open>The bytes the scanner skips in every mode.\<close>

definition is_ws :: "char \<Rightarrow> bool" where
  "is_ws c = (c = CHR '' '' \<or> c = CHR 0x09 \<or> c = CHR 0x0A \<or> c = CHR 0x0D)"

text \<open>The token kinds \<open>mjson_find\<close> can report.\<close>

definition tok_kind :: "int \<Rightarrow> bool" where
  "tok_kind t = (t = MJSON_TOK_INVALID \<or> t = MJSON_TOK_ARRAY \<or> t = MJSON_TOK_OBJECT \<or> MJSON_TOK_IS_VALUE t)"

text \<open>
  The string bodies the scanner passes: pairs of a backslash and one of the 8 raw
  characters of \<open>esc1\<close>, and single bytes other than NUL and the double quote. A
  backslash that is not followed by a character of \<open>esc1\<close> is such a single byte,
  unless it is the last byte, where it would pair with the closing quote.
\<close>

fun string_body :: "string \<Rightarrow> bool" where
  "string_body [] = True"
| "string_body [c] = (c \<noteq> NUL \<and> c \<noteq> CHR 0x22 \<and> c \<noteq> CHR 0x5C)"
| "string_body (c # e # cs) =
     (if c = CHR 0x5C \<and> e \<in> set esc1 then string_body cs
      else c \<noteq> NUL \<and> c \<noteq> CHR 0x22 \<and> string_body (e # cs))"

text \<open>
  Nested documents. A level is an array, or an object entered through its first member,
  whose key is given; the level opens with \<open>[\<close> or with \<open>{"key":\<close> and closes with
  \<open>]\<close> or \<open>}\<close>. \<open>nested ls v\<close> is the value \<open>v\<close> inside the levels \<open>ls\<close>,
  the outermost first. A key is any string body the scanner passes.
\<close>

datatype level = Arr | Obj string

fun opener :: "level \<Rightarrow> string" where
  "opener Arr = ''[''"
| "opener (Obj k) = CHR ''{'' # CHR 0x22 # k @ [CHR 0x22, CHR '':'']"

fun closer :: "level \<Rightarrow> char" where
  "closer Arr = CHR '']''"
| "closer (Obj k) = CHR ''}''"

fun bracket :: "level \<Rightarrow> char" where
  "bracket Arr = CHR ''[''"
| "bracket (Obj k) = CHR ''{''"

fun level_ok :: "level \<Rightarrow> bool" where
  "level_ok Arr = True"
| "level_ok (Obj k) = string_body k"

fun nested :: "level list \<Rightarrow> string \<Rightarrow> string" where
  "nested [] v = v"
| "nested (l # ls) v = opener l @ nested ls v @ [closer l]"

text \<open>
  The innermost value and the levels it adds itself: a literal adds none, an empty array
  or object adds one.
\<close>

fun leaf_depth :: "string \<Rightarrow> nat option" where
  "leaf_depth v =
     (if v = ''true'' \<or> v = ''false'' \<or> v = ''null'' then Some 0
      else if v = ''[]'' \<or> v = ''{}'' then Some 1
      else None)"

section \<open>Inputs of the examples\<close>

text \<open>Stack memory holding NUL bytes, and a sink that keeps nothing.\<close>

definition zero_stack :: "int \<Rightarrow> char" where
  "zero_stack k = NUL"

definition no_sink :: "unit mjson_cb_t option" where
  "no_sink = None"

text \<open>The document \<open>{"a":1,"b":[10,20,30]}\<close>.\<close>

definition doc_ab :: string where
  "doc_ab = ''{'' @ [CHR 0x22] @ ''a'' @ [CHR 0x22] @ '':1,'' @ [CHR 0x22] @ ''b'' @ [CHR 0x22] @
     '':[10,20,30]}''"

text \<open>The documents \<open>{"a":1,"ab":2}\<close> and \<open>{"a.b":7}\<close>.\<close>

definition doc_a_ab :: string where
  "doc_a_ab = ''{'' @ [CHR 0x22] @ ''a'' @ [CHR 0x22] @ '':1,'' @ [CHR 0x22] @ ''ab'' @ [CHR 0x22] @
     '':2}''"

definition doc_adotb :: string where
  "doc_adotb = ''{'' @ [CHR 0x22] @ ''a.b'' @ [CHR 0x22] @ '':7}''"

text \<open>The resolver's data for the path \<open>$.ab\<close> after the opening brace of a document.\<close>

definition data_ab :: msjon_find_data where
  "data_ab = \<lparr>path = ''$.ab'', pos = 1, d1 = 1, d2 = 0, i1 = 0, i2 = 0, obj = - 1,
              tokptr = Uninit, toklen = Uninit, tok = MJSON_TOK_INVALID, overrun = False\<rparr>"

text \<open>An empty fixed buffer of 8 bytes.\<close>

definition fb8 :: mjson_fixed_buf where
  "fb8 = \<lparr>fb_ptr = replicate 8 NUL, fb_size = 8, fb_len = 0\<rparr>"

text \<open>The string token \<open>"\q"\<close>: a backslash followed by the letter q.\<close>

definition bad_escape :: string where
  "bad_escape = [CHR 0x22, CHR 0x5C, CHR ''q'', CHR 0x22]"

text \<open>The document \<open>{"x":{"y":"hi"}}\<close>.\<close>

definition doc_xy :: string where
  "doc_xy = ''{'' @ [CHR 0x22] @ ''x'' @ [CHR 0x22] @ '':{'' @ [CHR 0x22] @ ''y'' @ [CHR 0x22] @ '':'' @
     [CHR 0x22] @ ''hi'' @ [CHR 0x22] @ ''}}''"

section \<open>Properties of the escape codec\<close>

lemma esc1_all:
  "list_all (\<lambda>c. mjson_esc (of_char c) 1 \<noteq> 0 \<and> char_of (mjson_esc (of_char c) 1) \<in> set esc2 \<and>
      mjson_esc (mjson_esc (of_char c) 1) 0 = of_char c) esc1"
  by code_simp

lemma esc2_all:
  "list_all (\<lambda>e. mjson_esc (of_char e) 0 \<noteq> 0 \<and> char_of (mjson_esc (of_char e) 0) \<in> set esc1 \<and>
      mjson_esc (mjson_esc (of_char e) 0) 1 = of_char e) esc2"
  by code_simp

text \<open>
  Claim C7. For each of the 8 special characters \<open>c\<close> (the entries of \<open>esc1\<close>:
  backspace, form feed, newline, carriage return, tab, backslash, double quote, slash),
  \<open>mjson_esc(c, 1)\<close> is a non-zero escape letter and \<open>mjson_esc(mjson_esc(c, 1), 0) = c\<close>;
  for each of the 8 escape letters \<open>e\<close> (the entries of \<open>esc2\<close>),
  \<open>mjson_esc(e, 0)\<close> is a non-zero special character and
  \<open>mjson_esc(mjson_esc(e, 0), 1) = e\<close>.
\<close>

theorem mjson_esc_roundtrip:
  "(c \<in> set esc1 \<longrightarrow>
      mjson_esc (of_char c) 1 \<noteq> 0 \<and> char_of (mjson_esc (of_char c) 1) \<in> set esc2 \<and>
      mjson_esc (mjson_esc (of_char c) 1) 0 = of_char c) \<and>
   (e \<in> set esc2 \<longrightarrow>
      mjson_esc (of_char e) 0 \<noteq> 0 \<and> char_of (mjson_esc (of_char e) 0) \<in> set esc1 \<and>
      mjson_esc (mjson_esc (of_char e) 0) 1 = of_char e)"
  using esc1_all esc2_all unfolding list_all_iff by blast

theorem mjson_esc_roundtrip_witness:
  "CHR 0x0A \<in> set esc1 \<and> CHR ''n'' \<in> set esc2 \<and>
   mjson_esc (of_char (CHR 0x0A)) 1 \<noteq> 0 \<and>
   mjson_esc (mjson_esc (of_char (CHR 0x0A)) 1) 0 = of_char (CHR 0x0A) \<and>
   mjson_esc (mjson_esc (of_char (CHR ''n'')) 0) 1 = of_char (CHR ''n'')"
  using mjson_esc_roundtrip [of "CHR 0x0A" "CHR ''n''"]
  by (simp add: esc1_def esc2_def)

section \<open>Evaluations of the scanner, the resolver and the printer\<close>

text \<open>
  Claim C5. \<open>mjson_find\<close> on the 22-byte buffer \<open>{"a":1,"b":[10,20,30]}\<close> with the
  path \<open>$.b[1]\<close> returns \<open>MJSON_TOK_NUMBER\<close> and sets the span to offset 15 and
  length 2, the two bytes \<open>20\<close> of the buffer, whatever the stack held before.
\<close>

theorem mjson_find_b1:
  "length doc_ab = 22 \<and>
   mjson_find c_strtod nest0 doc_ab 22 ''$.b[1]'' Uninit Uninit =
     Some \<lparr>tok_ret = MJSON_TOK_NUMBER, ptr_out = Cell 15, len_out = Cell 2,
           scanned = Some (22, False)\<rparr> \<and>
   take 2 (mem_from doc_ab 15) = ''20''"
  by code_simp

text \<open>
  Claim C1 asks that a non-negative result of \<open>mjson\<close> never exceed \<open>len\<close>. The
  number branch hands the buffer to \<open>strtod\<close>, which does not know \<open>len\<close>: on the
  memory \<open>123\<close> with \<open>len = 1\<close> the scanner reports 3 bytes consumed.
\<close>

theorem mjson_number_past_len:
  "ret (mjson c_strtod nest0 ''123'' 1 no_sink ()) = 3"
  by code_simp

text \<open>
  Claim C4 asks that a key consume a \<open>.name\<close> segment only when it equals the whole
  segment. The comparison covers the length of the key only. On \<open>{"a":1,"ab":2}\<close> with
  the path \<open>$.ab\<close> the key \<open>a\<close> (the event at offset 1 of length 3) moves the path
  cursor from 1 to 3 and raises \<open>d2\<close>, and the member \<open>ab\<close> is then not found; on
  \<open>{"a.b":7}\<close> the key \<open>a.b\<close> consumes the two segments of \<open>$.a.b\<close>.
\<close>

theorem mjson_find_key_prefix:
  "mjson_find c_strtod nest0 doc_a_ab 14 ''$.ab'' Uninit Uninit =
     Some \<lparr>tok_ret = MJSON_TOK_INVALID, ptr_out = Uninit, len_out = Uninit,
           scanned = Some (14, False)\<rparr> \<and>
   take 3 (mem_from doc_a_ab 1) = [CHR 0x22, CHR ''a'', CHR 0x22] \<and>
   pos (mjson_find_cb c_strtod MJSON_TOK_KEY doc_a_ab 1 3 data_ab) = 3 \<and>
   d2 (mjson_find_cb c_strtod MJSON_TOK_KEY doc_a_ab 1 3 data_ab) = 1 \<and>
   mjson_find c_strtod nest0 doc_adotb 9 ''$.a.b'' Uninit Uninit =
     Some \<lparr>tok_ret = MJSON_TOK_NUMBER, ptr_out = Cell 7, len_out = Cell 1,
           scanned = Some (9, False)\<rparr>"
  by code_simp

text \<open>
  Claim C8 asks that \<open>mjson_print_int\<close> emit the decimal representation of every
  \<open>n\<close>. The recursion is guarded by \<open>n > 10\<close>: for \<open>n = 10\<close> only the last digit is
  written, and \<open>-1024\<close> comes out as \<open>-024\<close>.
\<close>

theorem mjson_print_int_ten:
  "mjson_print_int 10 mjson_fixed_buf_printer fb8 =
     Some (1, \<lparr>fb_ptr = ''0'' @ replicate 7 NUL, fb_size = 8, fb_len = 1\<rparr>) \<and>
   mjson_print_int (- 1024) mjson_fixed_buf_printer fb8 =
     Some (4, \<lparr>fb_ptr = ''-024'' @ replicate 4 NUL, fb_size = 8, fb_len = 4\<rparr>)"
  by code_simp

section \<open>Steps of the scanner\<close>

text \<open>The token variable is set anew in every turn of the loop.\<close>

lemma mjson_body_tok: "mjson_body sd cb s len (st\<lparr>st_tok := t\<rparr>) = mjson_body sd cb s len st"
  by (simp add: mjson_body_def)

lemma mjson_loop_tok: "mjson_loop sd cb s len (st\<lparr>st_tok := t\<rparr>) = mjson_loop sd cb s len st"
  by (subst (1 2) mjson_loop.simps) (simp add: mjson_body_tok returned_def)

lemma mjson_loop_ws:
  "st_i st < len \<Longrightarrow> is_ws (byte_at s (st_i st)) \<Longrightarrow>
   mjson_loop sd cb s len st = mjson_loop sd cb s len (st\<lparr>st_i := st_i st + 1\<rparr>)"
proof -
  assume a: "st_i st < len" "is_ws (byte_at s (st_i st))"
  then have "mjson_body sd cb s len st = Continue (st\<lparr>st_tok := of_char (byte_at s (st_i st)), st_i := st_i st + 1\<rparr>)"
    by (auto simp: mjson_body_def is_ws_def Let_def)
  with a(1) have "mjson_loop sd cb s len st = mjson_loop sd cb s len (st\<lparr>st_tok := of_char (byte_at s (st_i st)), st_i := st_i st + 1\<rparr>)"
    by (subst mjson_loop.simps) simp
  also have "\<dots> = mjson_loop sd cb s len ((st\<lparr>st_i := st_i st + 1\<rparr>)\<lparr>st_tok := of_char (byte_at s (st_i st))\<rparr>)"
    by (cases st) simp
  finally show ?thesis by (simp only: mjson_loop_tok)
qed

lemma mjson_loop_stuck:
  "expecting st = S_COMMA_OR_EOO \<Longrightarrow> depth st \<le> 0 \<Longrightarrow>
   mjson_loop sd cb s len st = returned MJSON_ERROR_INVALID_INPUT st"
proof (induction sd cb s len st rule: mjson_loop.induct)
  case (1 sd cb s len st)
  show ?case
  proof (cases "st_i st < len")
    case False
    then show ?thesis by (subst mjson_loop.simps) simp
  next
    case True
    show ?thesis
    proof (cases "is_ws (byte_at s (st_i st))")
      case ws: True
      then have b: "mjson_body sd cb s len st = Continue (st\<lparr>st_tok := of_char (byte_at s (st_i st)), st_i := st_i st + 1\<rparr>)"
        by (auto simp: mjson_body_def is_ws_def Let_def)
      have "mjson_loop sd cb s len (st\<lparr>st_tok := of_char (byte_at s (st_i st)), st_i := st_i st + 1\<rparr>)
            = returned MJSON_ERROR_INVALID_INPUT (st\<lparr>st_tok := of_char (byte_at s (st_i st)), st_i := st_i st + 1\<rparr>)"
        using "1.IH" [OF True b] "1.prems" by simp
      then show ?thesis using True b
        by (subst mjson_loop.simps) (simp add: returned_def)
    next
      case nws: False
      then have b: "mjson_body sd cb s len st = Return MJSON_ERROR_INVALID_INPUT (st\<lparr>st_tok := of_char (byte_at s (st_i st))\<rparr>)"
        using "1.prems" by (auto simp: mjson_body_def is_ws_def Let_def scan_comma_or_eoo_def)
      show ?thesis using True b by (subst mjson_loop.simps) (simp add: returned_def)
    qed
  qed
qed

lemma byte_at_append_mid: "byte_at (pre @ c # rest) (int (length pre)) = c"
  by (simp add: byte_at_def nth_append)

lemma byte_at_append_left: "k < length pre \<Longrightarrow> byte_at (pre @ rest) (int k) = pre ! k"
  by (simp add: byte_at_def nth_append)

lemma mjson_loop_skip_ws:
  "list_all is_ws ws \<Longrightarrow> st_i st = int (length pre) \<Longrightarrow> int (length pre + length ws) \<le> len \<Longrightarrow>
   mjson_loop sd cb (pre @ ws @ rest) len st =
   mjson_loop sd cb (pre @ ws @ rest) len (st\<lparr>st_i := int (length pre + length ws)\<rparr>)"
proof (induction ws arbitrary: pre st)
  case Nil
  have "st\<lparr>st_i := int (length pre + length ([]::string))\<rparr> = st"
    using Nil.prems(2) by (cases st) simp
  then show ?case by simp
next
  case (Cons w ws)
  have "mjson_loop sd cb (pre @ (w # ws) @ rest) len st =
        mjson_loop sd cb (pre @ (w # ws) @ rest) len (st\<lparr>st_i := st_i st + 1\<rparr>)"
    using Cons.prems by (intro mjson_loop_ws) (auto simp: byte_at_append_mid)
  also have "\<dots> = mjson_loop sd cb ((pre @ [w]) @ ws @ rest) len (st\<lparr>st_i := st_i st + 1\<rparr>)"
    by simp
  also have "\<dots> = mjson_loop sd cb ((pre @ [w]) @ ws @ rest) len
       ((st\<lparr>st_i := st_i st + 1\<rparr>)\<lparr>st_i := int (length (pre @ [w]) + length ws)\<rparr>)"
    using Cons.prems by (intro Cons.IH) auto
  finally show ?case by simp
qed

lemma mjson_body_rbracket:
  assumes "expecting st = S_VALUE" and "depth st = 0" and "byte_at s (st_i st) = CHR '']''"
  shows "(\<exists>st'. mjson_body sd cb s len st = Return MJSON_ERROR_INVALID_INPUT st' \<and> oob st') \<or>
         (\<exists>st'. mjson_body sd cb s len st = Continue st' \<and> expecting st' = S_COMMA_OR_EOO \<and>
                depth st' \<le> 0 \<and> oob st')"
  using assms
  by (simp add: mjson_body_def scan_value_def scan_atom_def MJSONEOO_def nesting_chk_def
      then_do_def loop_end_def MJSONCALL_def MJSON_MAX_DEPTH_def Let_def split: option.split)

text \<open>
  Claim C9. When the first byte that is not whitespace is \<open>]\<close>, \<open>mjson\<close> returns
  \<open>MJSON_ERROR_INVALID_INPUT\<close> whatever the memory below the stack holds, and it
  does so after reading \<open>nesting[depth - 1]\<close> with \<open>depth = 0\<close>, outside the array:
  the read is neither absent nor in bounds.
\<close>

theorem mjson_rbracket_first:
  assumes "list_all is_ws ws" and "int (length ws) < len"
  shows "ret (mjson sd nest0 (ws @ CHR '']'' # rest) len cb ud0) = MJSON_ERROR_INVALID_INPUT \<and>
         stack_oob (mjson sd nest0 (ws @ CHR '']'' # rest) len cb ud0)"
proof -
  let ?s = "ws @ CHR '']'' # rest"
  let ?st0 = "\<lparr>expecting = S_VALUE, nesting = nest0, st_i = 0, depth = 0, st_tok = 0, ud = ud0, oob = False\<rparr>"
  let ?st1 = "?st0\<lparr>st_i := int (length ws)\<rparr>"
  have "mjson sd nest0 ?s len cb ud0 = mjson_loop sd cb ([] @ ws @ CHR '']'' # rest) len ?st0"
    by (simp add: mjson_def)
  also have "\<dots> = mjson_loop sd cb ([] @ ws @ CHR '']'' # rest) len (?st0\<lparr>st_i := int (length [] + length ws)\<rparr>)"
    using assms mjson_loop_skip_ws [where pre = "[]" and ws = ws and st = "?st0" and len = len]
    by simp
  finally have e: "mjson sd nest0 ?s len cb ud0 = mjson_loop sd cb ?s len ?st1" by simp
  have c: "byte_at ?s (st_i ?st1) = CHR '']''"
    using byte_at_append_mid [of ws "CHR '']''" rest] by simp
  have i: "st_i ?st1 < len" using assms(2) by simp
  from mjson_body_rbracket [of ?st1 ?s sd cb len, OF _ _ c]
  consider st' where "mjson_body sd cb ?s len ?st1 = Return MJSON_ERROR_INVALID_INPUT st'" "oob st'"
    | st' where "mjson_body sd cb ?s len ?st1 = Continue st'" "expecting st' = S_COMMA_OR_EOO"
        "depth st' \<le> 0" "oob st'"
    by auto
  then have "ret (mjson_loop sd cb ?s len ?st1) = MJSON_ERROR_INVALID_INPUT \<and>
             stack_oob (mjson_loop sd cb ?s len ?st1)"
  proof cases
    case 1
    then show ?thesis using i by (subst (1 2) mjson_loop.simps) (simp add: returned_def)
  next
    case 2
    then show ?thesis using i mjson_loop_stuck [of st' sd cb ?s len]
      by (subst (1 2) mjson_loop.simps) (simp add: returned_def)
  qed
  then show ?thesis by (simp only: e)
qed

theorem mjson_rbracket_first_witness:
  "list_all is_ws '' '' \<and> int (length '' '') < 3 \<and>
   ret (mjson c_strtod zero_stack ('' '' @ CHR '']'' # '' '') 3 no_sink ()) = MJSON_ERROR_INVALID_INPUT \<and>
   stack_oob (mjson c_strtod zero_stack ('' '' @ CHR '']'' # '' '') 3 no_sink ())"
  using mjson_rbracket_first [of "'' ''" 3 c_strtod zero_stack "'' ''" no_sink "()"]
  by (simp add: is_ws_def)

section \<open>The path resolver never reports an error code\<close>

text \<open>What holds of the user data before the scan and is kept by the sink holds after it.\<close>

lemma mjson_body_sink_inv:
  assumes "P (ud st)" and "\<And>ev b off n u. P u \<Longrightarrow> P (f ev b off n u)"
  shows "case mjson_body sd (Some f) s len st of Return r st' \<Rightarrow> P (ud st') | Continue st' \<Rightarrow> P (ud st')"
  using assms
  by (auto simp: mjson_body_def scan_value_def scan_key_def scan_colon_def scan_comma_or_eoo_def
       scan_atom_def loop_end_def MJSONCALL_def MJSONEOO_def nesting_chk_def then_do_def Let_def
       split: expect.splits outcome.splits)

lemma mjson_loop_sink_inv:
  assumes "P (ud st)" and "\<And>ev b off n u. P u \<Longrightarrow> P (f ev b off n u)"
  shows "P (user (mjson_loop sd (Some f) s len st))"
  using assms(1)
proof (induction sd "Some f" s len st rule: mjson_loop.induct)
  case (1 sd s len st)
  show ?case
  proof (cases "st_i st < len")
    case False
    then show ?thesis using "1.prems" by (subst mjson_loop.simps) (simp add: returned_def)
  next
    case True
    note b = mjson_body_sink_inv [of P st f sd s len, OF "1.prems" assms(2)]
    show ?thesis
    proof (cases "mjson_body sd (Some f) s len st")
      case (Return r st')
      then show ?thesis using True b by (subst mjson_loop.simps) (simp add: returned_def)
    next
      case (Continue st')
      then have "P (user (mjson_loop sd (Some f) s len st'))"
        using "1.hyps" [OF True Continue] b by simp
      then show ?thesis using True Continue by (subst mjson_loop.simps) simp
    qed
  qed
qed

lemma mjson_find_cb_found:
  "tok data \<noteq> MJSON_TOK_INVALID \<Longrightarrow> mjson_find_cb sd ev b off n data = data"
  by (simp add: mjson_find_cb_def)

lemma mjson_find_cb_overrun:
  "overrun data \<Longrightarrow> mjson_find_cb sd ev b off n data = data"
  by (simp add: mjson_find_cb_def)

lemma mjson_find_cb_fresh:
  "\<not> overrun data \<Longrightarrow> tok data = MJSON_TOK_INVALID \<Longrightarrow>
   tok_kind (tok (mjson_find_cb sd ev b off n data))"
  unfolding mjson_find_cb_def Let_def
  by (simp add: tok_kind_def MJSON_TOK_ARRAY_def MJSON_TOK_OBJECT_def split: option.split)

lemma mjson_find_cb_tok:
  assumes "tok_kind (tok data)"
  shows "tok_kind (tok (mjson_find_cb sd ev b off n data))"
proof (cases "overrun data")
  case True
  with assms show ?thesis by (simp add: mjson_find_cb_overrun)
next
  case False
  show ?thesis
  proof (cases "tok data = MJSON_TOK_INVALID")
    case True
    with False show ?thesis by (rule mjson_find_cb_fresh)
  next
    case False
    with assms show ?thesis by (simp add: mjson_find_cb_found)
  qed
qed

text \<open>
  Claim C6. A path that does not start with \<open>$\<close> makes \<open>mjson_find\<close> return
  \<open>MJSON_TOK_INVALID\<close> without calling the tokenizer, for every buffer and length, and
  the destinations are left as they were. When the scan returns a negative code (and
  the resolver has not run off the path), \<open>mjson_find\<close> returns
  \<open>MJSON_TOK_INVALID\<close>. Whatever it returns is a token kind, never negative and so
  neither of the two error codes.
\<close>

theorem mjson_find_never_negative:
  "(byte_at jp 0 \<noteq> CHR ''$'' \<longrightarrow>
      mjson_find sd nest0 s len jp tp0 tl0 =
        Some \<lparr>tok_ret = MJSON_TOK_INVALID, ptr_out = tp0, len_out = tl0, scanned = None\<rparr>) \<and>
   (byte_at jp 0 = CHR ''$'' \<and>
    \<not> overrun (user (mjson sd nest0 s len (Some (mjson_find_cb sd)) (find_init jp tp0 tl0))) \<and>
    ret (mjson sd nest0 s len (Some (mjson_find_cb sd)) (find_init jp tp0 tl0)) < 0 \<longrightarrow>
      (\<exists>r. mjson_find sd nest0 s len jp tp0 tl0 = Some r \<and> tok_ret r = MJSON_TOK_INVALID)) \<and>
   (\<forall>r. mjson_find sd nest0 s len jp tp0 tl0 = Some r \<longrightarrow>
      0 \<le> tok_ret r \<and> tok_ret r \<noteq> MJSON_ERROR_INVALID_INPUT \<and> tok_ret r \<noteq> MJSON_ERROR_TOO_DEEP)"
proof (intro conjI impI allI)
  assume "byte_at jp 0 \<noteq> CHR ''$''"
  then show "mjson_find sd nest0 s len jp tp0 tl0 =
        Some \<lparr>tok_ret = MJSON_TOK_INVALID, ptr_out = tp0, len_out = tl0, scanned = None\<rparr>"
    by (simp add: mjson_find_def)
next
  assume "byte_at jp 0 = CHR ''$'' \<and>
    \<not> overrun (user (mjson sd nest0 s len (Some (mjson_find_cb sd)) (find_init jp tp0 tl0))) \<and>
    ret (mjson sd nest0 s len (Some (mjson_find_cb sd)) (find_init jp tp0 tl0)) < 0"
  then show "\<exists>r. mjson_find sd nest0 s len jp tp0 tl0 = Some r \<and> tok_ret r = MJSON_TOK_INVALID"
    by (simp add: mjson_find_def Let_def)
next
  fix r
  assume a: "mjson_find sd nest0 s len jp tp0 tl0 = Some r"
  have "tok_kind (tok (find_init jp tp0 tl0))"
    by (simp add: find_init_def tok_kind_def)
  then have "tok_kind (tok (user (mjson sd nest0 s len (Some (mjson_find_cb sd)) (find_init jp tp0 tl0))))"
    unfolding mjson_def
    by (intro mjson_loop_sink_inv [where P = "\<lambda>u. tok_kind (tok u)"]) (simp_all add: mjson_find_cb_tok)
  with a have "tok_kind (tok_ret r)"
    by (auto simp: mjson_find_def Let_def tok_kind_def split: if_splits)
  then have "0 \<le> tok_ret r"
    by (auto simp: tok_kind_def MJSON_TOK_INVALID_def MJSON_TOK_ARRAY_def MJSON_TOK_OBJECT_def
         MJSON_TOK_IS_VALUE_def)
  then show "0 \<le> tok_ret r" "tok_ret r \<noteq> MJSON_ERROR_INVALID_INPUT" "tok_ret r \<noteq> MJSON_ERROR_TOO_DEEP"
    by (simp_all add: MJSON_ERROR_INVALID_INPUT_def MJSON_ERROR_TOO_DEEP_def)
qed

theorem mjson_find_never_negative_witness:
  "byte_at ''.a'' 0 \<noteq> CHR ''$'' \<and>
   mjson_find c_strtod zero_stack ''[1'' 2 ''.a'' Uninit Uninit =
     Some \<lparr>tok_ret = MJSON_TOK_INVALID, ptr_out = Uninit, len_out = Uninit, scanned = None\<rparr> \<and>
   byte_at ''$'' 0 = CHR ''$'' \<and>
   \<not> overrun (user (mjson c_strtod zero_stack ''[1'' 2 (Some (mjson_find_cb c_strtod)) (find_init ''$'' Uninit Uninit))) \<and>
   ret (mjson c_strtod zero_stack ''[1'' 2 (Some (mjson_find_cb c_strtod)) (find_init ''$'' Uninit Uninit)) < 0 \<and>
   (\<exists>r. mjson_find c_strtod zero_stack ''[1'' 2 ''$'' Uninit Uninit = Some r \<and> tok_ret r = MJSON_TOK_INVALID \<and>
        0 \<le> tok_ret r)"
proof -
  have h1: "byte_at ''.a'' 0 \<noteq> CHR ''$''" by code_simp
  have h2: "byte_at ''$'' 0 = CHR ''$''" by code_simp
  have h3: "\<not> overrun (user (mjson c_strtod zero_stack ''[1'' 2 (Some (mjson_find_cb c_strtod)) (find_init ''$'' Uninit Uninit)))"
    by code_simp
  have h4: "ret (mjson c_strtod zero_stack ''[1'' 2 (Some (mjson_find_cb c_strtod)) (find_init ''$'' Uninit Uninit)) < 0"
    by code_simp
  note t1 = mjson_find_never_negative [of "''.a''" c_strtod zero_stack "''[1''" 2 Uninit Uninit]
  note t2 = mjson_find_never_negative [of "''$''" c_strtod zero_stack "''[1''" 2 Uninit Uninit]
  from t1 h1 have c1: "mjson_find c_strtod zero_stack ''[1'' 2 ''.a'' Uninit Uninit =
     Some \<lparr>tok_ret = MJSON_TOK_INVALID, ptr_out = Uninit, len_out = Uninit, scanned = None\<rparr>"
    by blast
  from t2 h2 h3 h4 have c2: "\<exists>r. mjson_find c_strtod zero_stack ''[1'' 2 ''$'' Uninit Uninit = Some r \<and>
      tok_ret r = MJSON_TOK_INVALID \<and> 0 \<le> tok_ret r"
    by blast
  from h1 h2 h3 h4 c1 c2 show ?thesis by blast
qed

section \<open>Strings and backslashes\<close>

text \<open>\<open>mjson_esc(c, 1)\<close> is non-zero exactly on the raw characters of \<open>esc1\<close>.\<close>

lemma strchr_None: "c \<notin> set str \<Longrightarrow> strchr str c = (if c = NUL then Some (length str) else None)"
  by (induction str) auto

lemma strchr_Some: "c \<in> set str \<Longrightarrow> \<exists>k < length str. strchr str c = Some k"
  by (induction str) auto

lemma esc1_codes_nonzero: "list_all (\<lambda>k. of_char (lit_at esc2 k) \<noteq> (0::int)) [0..<8]"
  by code_simp

lemma mjson_esc_raw: "mjson_esc (of_char e) 1 \<noteq> 0 \<longleftrightarrow> e \<in> set esc1"
proof (cases "e \<in> set esc1")
  case True
  from strchr_Some [OF this] obtain k where k: "k < length esc1" "strchr esc1 e = Some k" by blast
  have "length esc1 = 8" by (simp add: esc1_def)
  with k(1) esc1_codes_nonzero have "of_char (lit_at esc2 k) \<noteq> (0::int)"
    by (simp add: list_all_iff)
  with k(2) True show ?thesis by (simp add: mjson_esc_def)
next
  case False
  have "lit_at esc2 (length esc1) = NUL" by (simp add: lit_at_def esc1_def esc2_def)
  with False show ?thesis by (simp add: mjson_esc_def strchr_None NUL_def)
qed


lemma byte_at_mid2: "byte_at (pre @ c # e # rest) (int (length pre) + 1) = e"
  using byte_at_append_mid [of "pre @ [c]" e rest] by (simp add: add.commute)

lemma pass_string_body:
  "string_body b \<Longrightarrow> int (length pre + length b) < len \<Longrightarrow>
   pass_string_loop (pre @ b @ CHR 0x22 # rest) len (int (length pre)) = int (length pre + length b)"
proof (induction b arbitrary: pre rule: string_body.induct)
  case 1
  have "byte_at (pre @ CHR 0x22 # rest) (int (length pre)) = CHR 0x22"
    by (rule byte_at_append_mid)
  with "1.prems" show ?case
    by (subst pass_string_loop.simps) (simp add: NUL_def)
next
  case (2 c)
  have c: "byte_at (pre @ c # CHR 0x22 # rest) (int (length pre)) = c"
    by (rule byte_at_append_mid)
  have "pass_string_loop (pre @ [c] @ CHR 0x22 # rest) len (int (length pre)) =
        pass_string_loop ((pre @ [c]) @ [] @ CHR 0x22 # rest) len (int (length (pre @ [c])))"
    using "2.prems" c by (subst pass_string_loop.simps) (simp add: add.commute)
  also have "\<dots> = int (length (pre @ [c]) + length ([]::string))"
  proof -
    have "byte_at ((pre @ [c]) @ CHR 0x22 # rest) (int (length (pre @ [c]))) = CHR 0x22"
      by (rule byte_at_append_mid)
    with "2.prems" show ?thesis
      by (subst pass_string_loop.simps) (simp add: NUL_def)
  qed
  finally show ?case by simp
next
  case (3 c e cs)
  let ?s = "pre @ (c # e # cs) @ CHR 0x22 # rest"
  have c: "byte_at ?s (int (length pre)) = c"
    using byte_at_append_mid [of pre c "e # cs @ CHR 0x22 # rest"] by simp
  have e: "byte_at ?s (int (length pre) + 1) = e"
    using byte_at_mid2 [of pre c e "cs @ CHR 0x22 # rest"] by simp
  show ?case
  proof (cases "c = CHR 0x5C \<and> e \<in> set esc1")
    case True
    then have sb: "string_body cs" using "3.prems"(1) by simp
    have "pass_string_loop ?s len (int (length pre)) =
          pass_string_loop ?s len (int (length pre) + 1 + 1)"
      using "3.prems"(2) True c e
      by (subst pass_string_loop.simps) (simp add: mjson_esc_raw)
    also have "\<dots> = pass_string_loop ((pre @ [c, e]) @ cs @ CHR 0x22 # rest) len (int (length (pre @ [c, e])))"
      by (simp add: add.commute)
    also have "\<dots> = int (length (pre @ [c, e]) + length cs)"
      using "3.prems"(2) by (intro "3.IH"(1) [OF True sb]) simp
    finally show ?thesis by simp
  next
    case False
    then have sb: "c \<noteq> NUL" "c \<noteq> CHR 0x22" "string_body (e # cs)" using "3.prems"(1) by auto
    have "pass_string_loop ?s len (int (length pre)) =
          pass_string_loop ?s len (int (length pre) + 1)"
      using "3.prems"(2) False c e sb(1,2)
      by (subst pass_string_loop.simps) (auto simp: mjson_esc_raw)
    also have "\<dots> = pass_string_loop ((pre @ [c]) @ (e # cs) @ CHR 0x22 # rest) len (int (length (pre @ [c])))"
      by (simp add: add.commute)
    also have "\<dots> = int (length (pre @ [c]) + length (e # cs))"
      using "3.prems"(2) by (intro "3.IH"(2) [OF False sb(3)]) simp
    finally show ?thesis by simp
  qed
qed

lemma mjson_pass_string_body:
  "string_body b \<Longrightarrow> int (length b) < len \<Longrightarrow>
   mjson_pass_string (b @ CHR 0x22 # rest) len = int (length b)"
  using pass_string_body [of b "[]" len rest] by (simp add: mjson_pass_string_def)


text \<open>
  Which strings the scanner accepts. It skips a backslash together with the next byte
  when that byte is one of the 8 raw characters of \<open>esc1\<close>, and passes over any other
  backslash as an ordinary byte. A string whose body is a \<open>string_body\<close> (which a
  lone backslash does not end, since it would pair with the closing quote) and whose
  closing quote lies within \<open>len\<close> is accepted: \<open>mjson\<close> returns the length of the
  body plus 2 and reports one string token.
\<close>

lemma mjson_string_accepted:
  assumes "string_body b" and "int (length b) + 2 \<le> len"
  shows "mjson sd nest0 (CHR 0x22 # b @ CHR 0x22 # rest) len cb ud0 =
           \<lparr>ret = int (length b) + 2,
            user = (case cb of None \<Rightarrow> ud0
                    | Some f \<Rightarrow> f MJSON_TOK_STRING (CHR 0x22 # b @ CHR 0x22 # rest) 0 (int (length b) + 2) ud0),
            stack_oob = False\<rparr>"
proof -
  let ?s = "CHR 0x22 # b @ CHR 0x22 # rest"
  let ?st0 = "\<lparr>expecting = S_VALUE, nesting = nest0, st_i = 0, depth = 0, st_tok = 0, ud = ud0, oob = False\<rparr>"
  have c: "byte_at ?s 0 = CHR 0x22" by (simp add: byte_at_def)
  have n: "mjson_pass_string (mem_from ?s 1) (len - 0 - 1) = int (length b)"
    using assms by (simp add: mem_from_def mjson_pass_string_body)
  have "mjson_body sd cb ?s len ?st0 =
        Return (int (length b) + 2)
          (MJSONCALL cb ?s MJSON_TOK_STRING 0
             (?st0\<lparr>st_tok := MJSON_TOK_STRING, st_i := int (length b) + 1\<rparr>))"
    using c n
    by (simp add: mjson_body_def scan_value_def scan_atom_def then_do_def is_digit_def Let_def)
  moreover have "0 < len" using assms(2) by simp
  ultimately show ?thesis
    by (simp add: mjson_def mjson_loop.simps [of sd cb ?s len ?st0] returned_def MJSONCALL_def
        add.commute split: option.split)
qed

text \<open>
  Claim C2 asks that a backslash which is not followed by one of the 8 escape letters
  make the scan fail with a negative code. The scanner has no such return, and it looks
  the next byte up among the raw characters (\<open>mjson_esc(s[i + 1], 1)\<close>), not among the
  escape letters. On the 4 bytes \<open>"\q"\<close> the backslash is followed by \<open>q\<close>, which is
  no escape letter (\<open>mjson_esc(q, 0) = 0\<close>), and \<open>mjson\<close> accepts the string and returns
  4; \<open>mjson_unescape\<close>, which looks the byte up among the escape letters, returns
  \<open>-1\<close> on the same body.
\<close>

theorem mjson_bad_escape_accepted:
  "byte_at bad_escape 1 = CHR 0x5C \<and> byte_at bad_escape 2 = CHR ''q'' \<and>
   CHR ''q'' \<notin> set esc2 \<and> mjson_esc (of_char (CHR ''q'')) 0 = 0 \<and>
   ret (mjson c_strtod zero_stack bad_escape 4 no_sink ()) = 4 \<and>
   fst (mjson_unescape (mem_from bad_escape 1) 2 (replicate 4 NUL) 4) = - 1"
  by code_simp

section \<open>Decoding needs room for the terminator\<close>

text \<open>
  The loop of \<open>mjson_unescape\<close> against \<open>decoded\<close>: from the position \<open>i\<close>
  reached after \<open>pre\<close>, with \<open>j\<close> bytes written, on the rest \<open>b\<close> of the
  input.
\<close>

lemma poke_in: "j < length to \<Longrightarrow> poke to (int j) c = to[j := c]"
  by (simp add: poke_def)

lemma unescape_loop_end:
  "int j < n \<Longrightarrow> n \<le> int (length to) \<Longrightarrow>
   unescape_loop s (int (length pre)) n (int (length pre)) (int j) to = (int j, to[j := NUL])"
  by (subst unescape_loop.simps) (simp add: poke_def)

lemma unescape_loop_full:
  "n \<le> int j \<Longrightarrow> fst (unescape_loop s len n i (int j) to) = - 1"
  by (subst unescape_loop.simps) simp

lemma take_upd_snoc: "j < length to \<Longrightarrow> take j to @ c # xs = take (Suc j) (to[j := c]) @ xs"
  by (simp add: take_Suc_conv_app_nth)

lemma unescape_loop_ok:
  "decoded b = Some d \<Longrightarrow> int (j + length d) < n \<Longrightarrow> n \<le> int (length to) \<Longrightarrow>
   unescape_loop (pre @ b @ post) (int (length pre + length b)) n (int (length pre)) (int j) to =
     (int (j + length d), take j to @ d @ NUL # drop (j + length d + 1) to)"
proof (induction b arbitrary: pre d j to rule: decoded.induct)
  case 1
  then have "d = []" by simp
  with "1.prems" show ?case
    using unescape_loop_end [of j n to "pre @ post" pre]
    by (simp add: upd_conv_take_nth_drop)
next
  case (2 c)
  then have d: "d = [c]" by simp
  let ?s = "pre @ [c] @ post"
  have c: "byte_at ?s (int (length pre)) = c"
    using byte_at_append_mid [of pre c post] by simp
  have j: "j < length to" using "2.prems" by simp
  have "unescape_loop ?s (int (length pre + length [c])) n (int (length pre)) (int j) to =
        unescape_loop ?s (int (length (pre @ [c]))) n (int (length (pre @ [c]))) (int (Suc j)) (to[j := c])"
    using "2.prems" c d j
    by (subst unescape_loop.simps) (simp add: poke_in add.commute)
  also have "\<dots> = (int (Suc j), (to[j := c])[Suc j := NUL])"
    using "2.prems" d by (intro unescape_loop_end) auto
  also have "(to[j := c])[Suc j := NUL] = take j to @ d @ NUL # drop (j + length d + 1) to"
    using "2.prems" d j
    by (simp add: upd_conv_take_nth_drop take_Suc_conv_app_nth nth_list_update)
  finally show ?case using d by simp
next
  case (3 c e cs)
  let ?s = "pre @ (c # e # cs) @ post"
  have c: "byte_at ?s (int (length pre)) = c"
    using byte_at_append_mid [of pre c "e # cs @ post"] by simp
  have e: "byte_at ?s (int (length pre) + 1) = e"
    using byte_at_append_mid [of "pre @ [c]" e "cs @ post"] by (simp add: add.commute)
  show ?case
  proof (cases "c = CHR 0x5C")
    case True
    with "3.prems"(1) obtain d' where
      ne: "mjson_esc (of_char e) 0 \<noteq> 0" and d': "decoded cs = Some d'"
      and d: "d = char_of (mjson_esc (of_char e) 0) # d'"
      by (auto split: if_splits)
    let ?x = "char_of (mjson_esc (of_char e) 0) :: char"
    have j: "j < length to" using "3.prems" by simp
    have "unescape_loop ?s (int (length pre + length (c # e # cs))) n (int (length pre)) (int j) to =
          unescape_loop ((pre @ [c, e]) @ cs @ post) (int (length (pre @ [c, e]) + length cs)) n
            (int (length (pre @ [c, e]))) (int (Suc j)) (to[j := ?x])"
      using "3.prems" True c e ne j d
      by (subst unescape_loop.simps) (simp add: poke_in add.commute Let_def)
    also have "\<dots> = (int (Suc j + length d'), take (Suc j) (to[j := ?x]) @ d' @ NUL #
                       drop (Suc j + length d' + 1) (to[j := ?x]))"
      using "3.prems" d by (intro "3.IH"(1) [OF True ne d']) auto
    also have "take (Suc j) (to[j := ?x]) @ d' @ NUL # drop (Suc j + length d' + 1) (to[j := ?x]) =
               take j to @ d @ NUL # drop (j + length d + 1) to"
      using j d by (simp add: take_Suc_conv_app_nth)
    finally show ?thesis using d by simp
  next
    case False
    with "3.prems"(1) obtain d' where d': "decoded (e # cs) = Some d'" and d: "d = c # d'"
      by auto
    have j: "j < length to" using "3.prems" by simp
    have "unescape_loop ?s (int (length pre + length (c # e # cs))) n (int (length pre)) (int j) to =
          unescape_loop ((pre @ [c]) @ (e # cs) @ post) (int (length (pre @ [c]) + length (e # cs))) n
            (int (length (pre @ [c]))) (int (Suc j)) (to[j := c])"
      using "3.prems" False c j d
      by (subst unescape_loop.simps) (simp add: poke_in add.commute)
    also have "\<dots> = (int (Suc j + length d'), take (Suc j) (to[j := c]) @ d' @ NUL #
                       drop (Suc j + length d' + 1) (to[j := c]))"
      using "3.prems" d by (intro "3.IH"(2) [OF False d']) auto
    also have "take (Suc j) (to[j := c]) @ d' @ NUL # drop (Suc j + length d' + 1) (to[j := c]) =
               take j to @ d @ NUL # drop (j + length d + 1) to"
      using j d by (simp add: take_Suc_conv_app_nth)
    finally show ?thesis using d by simp
  qed
qed


lemma unescape_loop_fail:
  "(case decoded b of None \<Rightarrow> True | Some d \<Rightarrow> n \<le> int (j + length d)) \<Longrightarrow>
   fst (unescape_loop (pre @ b @ post) (int (length pre + length b)) n (int (length pre)) (int j) to) = - 1"
proof (induction b arbitrary: pre j to rule: decoded.induct)
  case 1
  then show ?case by (simp add: unescape_loop_full)
next
  case (2 c)
  show ?case
  proof (cases "n \<le> int j")
    case True
    then show ?thesis by (rule unescape_loop_full)
  next
    case False
    let ?s = "pre @ [c] @ post"
    have c: "byte_at ?s (int (length pre)) = c"
      using byte_at_append_mid [of pre c post] by simp
    have "unescape_loop ?s (int (length pre + length [c])) n (int (length pre)) (int j) to =
          unescape_loop ?s (int (length pre + length [c])) n (int (length pre) + 1) (int (Suc j)) (poke to (int j) c)"
      using False c by (subst unescape_loop.simps) (simp add: add.commute)
    moreover have "n \<le> int (Suc j)" using "2.prems" by simp
    ultimately show ?thesis by (simp only: unescape_loop_full)
  qed
next
  case (3 c e cs)
  let ?s = "pre @ (c # e # cs) @ post"
  have c: "byte_at ?s (int (length pre)) = c"
    using byte_at_append_mid [of pre c "e # cs @ post"] by simp
  have e: "byte_at ?s (int (length pre) + 1) = e"
    using byte_at_append_mid [of "pre @ [c]" e "cs @ post"] by (simp add: add.commute)
  show ?case
  proof (cases "n \<le> int j")
    case True
    then show ?thesis by (rule unescape_loop_full)
  next
    case nj: False
    show ?thesis
    proof (cases "c = CHR 0x5C")
      case True
      show ?thesis
      proof (cases "mjson_esc (of_char e) 0 = 0")
        case z: True
        show ?thesis using nj True c e z
          by (subst unescape_loop.simps) (simp add: Let_def)
      next
        case ne: False
        let ?x = "char_of (mjson_esc (of_char e) 0) :: char"
        have p: "case decoded cs of None \<Rightarrow> True | Some d \<Rightarrow> n \<le> int (Suc j + length d)"
          using "3.prems" True ne by (auto split: option.splits)
        have eq: "unescape_loop ?s (int (length pre + length (c # e # cs))) n (int (length pre)) (int j) to =
              unescape_loop ((pre @ [c, e]) @ cs @ post) (int (length (pre @ [c, e]) + length cs)) n
                (int (length (pre @ [c, e]))) (int (Suc j)) (poke to (int j) ?x)"
          using nj True c e ne
          by (subst unescape_loop.simps) (simp add: add.commute Let_def)
        show ?thesis unfolding eq by (rule "3.IH"(1) [OF True ne p])
      qed
    next
      case False
      have p: "case decoded (e # cs) of None \<Rightarrow> True | Some d \<Rightarrow> n \<le> int (Suc j + length d)"
        using "3.prems" False by (auto split: option.splits)
      have eq: "unescape_loop ?s (int (length pre + length (c # e # cs))) n (int (length pre)) (int j) to =
            unescape_loop ((pre @ [c]) @ (e # cs) @ post) (int (length (pre @ [c]) + length (e # cs))) n
              (int (length (pre @ [c]))) (int (Suc j)) (poke to (int j) c)"
        using nj False c
        by (subst unescape_loop.simps) (simp add: add.commute)
      show ?thesis unfolding eq by (rule "3.IH"(2) [OF False p])
    qed
  qed
qed

lemma mjson_unescape_decoded:
  assumes "0 \<le> len" and "len \<le> int (length s)" and "n \<le> int (length to)"
  shows "case decoded (take (nat len) s) of
           None \<Rightarrow> fst (mjson_unescape s len to n) = - 1
         | Some d \<Rightarrow>
             if int (length d) < n
             then mjson_unescape s len to n = (int (length d), d @ NUL # drop (length d + 1) to)
             else fst (mjson_unescape s len to n) = - 1"
proof -
  let ?b = "take (nat len) s"
  have s: "s = [] @ ?b @ drop (nat len) s" by simp
  have l: "len = int (length ([]::string) + length ?b)" using assms by simp
  show ?thesis
  proof (cases "decoded ?b")
    case None
    then have "fst (unescape_loop ([] @ ?b @ drop (nat len) s) (int (length ([]::string) + length ?b)) n
                 (int (length ([]::string))) (int 0) to) = - 1"
      by (intro unescape_loop_fail) simp
    with None show ?thesis using s l by (simp add: mjson_unescape_def)
  next
    case (Some d)
    show ?thesis
    proof (cases "int (length d) < n")
      case True
      then have "unescape_loop ([] @ ?b @ drop (nat len) s) (int (length ([]::string) + length ?b)) n
                 (int (length ([]::string))) (int 0) to =
                 (int (0 + length d), take 0 to @ d @ NUL # drop (0 + length d + 1) to)"
        using Some assms(3) by (intro unescape_loop_ok) auto
      with Some True show ?thesis using s l by (simp add: mjson_unescape_def)
    next
      case False
      then have "fst (unescape_loop ([] @ ?b @ drop (nat len) s) (int (length ([]::string) + length ?b)) n
                 (int (length ([]::string))) (int 0) to) = - 1"
        using Some by (intro unescape_loop_fail) simp
      with Some False show ?thesis using s l by (simp add: mjson_unescape_def)
    qed
  qed
qed


text \<open>
  Claim C10. \<open>mjson_unescape\<close> succeeds exactly when the input decodes and the
  decoded length is below \<open>n\<close>: it then returns the decoded length, and the buffer
  holds the decoded bytes followed by a NUL byte, the bytes after it untouched. It
  returns \<open>-1\<close> whenever the decoded length is \<open>n\<close> or more, and when the input does
  not decode. So \<open>mjson_find_string\<close>, on a string token whose body decodes to \<open>d'\<close>,
  returns \<open>-1\<close> unless \<open>n\<close> is at least the length of \<open>d'\<close> plus one, and returns
  the length of \<open>d'\<close>, which does not count the terminator, when it is.
\<close>

theorem mjson_unescape_terminator:
  "(0 \<le> len \<and> len \<le> int (length s) \<and> n \<le> int (length to) \<longrightarrow>
      (case decoded (take (nat len) s) of
         None \<Rightarrow> fst (mjson_unescape s len to n) = - 1
       | Some d \<Rightarrow>
           if int (length d) < n
           then mjson_unescape s len to n = (int (length d), d @ NUL # drop (length d + 1) to)
           else fst (mjson_unescape s len to n) = - 1)) \<and>
   (mjson_find sd nest0 b blen jp Uninit Uninit = Some r \<and> tok_ret r = MJSON_TOK_STRING \<and>
    ptr_out r = Cell p \<and> len_out r = Cell sz \<and> 0 \<le> p + 1 \<and> 0 \<le> sz - 2 \<and>
    p + 1 + (sz - 2) \<le> int (length b) \<and>
    decoded (take (nat (sz - 2)) (mem_from b (p + 1))) = Some d' \<and> n \<le> int (length to) \<longrightarrow>
      (if int (length d') < n
       then mjson_find_string sd nest0 b blen jp to n =
              Some (int (length d'), d' @ NUL # drop (length d' + 1) to)
       else map_option fst (mjson_find_string sd nest0 b blen jp to n) = Some (- 1)))"
proof (intro conjI impI)
  assume "0 \<le> len \<and> len \<le> int (length s) \<and> n \<le> int (length to)"
  then show "case decoded (take (nat len) s) of
         None \<Rightarrow> fst (mjson_unescape s len to n) = - 1
       | Some d \<Rightarrow>
           if int (length d) < n
           then mjson_unescape s len to n = (int (length d), d @ NUL # drop (length d + 1) to)
           else fst (mjson_unescape s len to n) = - 1"
    using mjson_unescape_decoded [of len s n to] by blast
next
  assume a: "mjson_find sd nest0 b blen jp Uninit Uninit = Some r \<and> tok_ret r = MJSON_TOK_STRING \<and>
    ptr_out r = Cell p \<and> len_out r = Cell sz \<and> 0 \<le> p + 1 \<and> 0 \<le> sz - 2 \<and>
    p + 1 + (sz - 2) \<le> int (length b) \<and>
    decoded (take (nat (sz - 2)) (mem_from b (p + 1))) = Some d' \<and> n \<le> int (length to)"
  then have fs: "mjson_find_string sd nest0 b blen jp to n =
      Some (mjson_unescape (mem_from b (p + 1)) (sz - 2) to n)"
    by (simp add: mjson_find_string_def)
  have "0 \<le> p + 1" and "p + 1 + (sz - 2) \<le> int (length b)" using a by blast+
  then have "sz - 2 \<le> int (length (mem_from b (p + 1)))"
    by (simp add: mem_from_def)
  with a mjson_unescape_decoded [of "sz - 2" "mem_from b (p + 1)" n to]
  have "if int (length d') < n
        then mjson_unescape (mem_from b (p + 1)) (sz - 2) to n =
               (int (length d'), d' @ NUL # drop (length d' + 1) to)
        else fst (mjson_unescape (mem_from b (p + 1)) (sz - 2) to n) = - 1"
    by simp
  then show "if int (length d') < n
       then mjson_find_string sd nest0 b blen jp to n =
              Some (int (length d'), d' @ NUL # drop (length d' + 1) to)
       else map_option fst (mjson_find_string sd nest0 b blen jp to n) = Some (- 1)"
    by (simp add: fs split: if_splits)
qed

theorem mjson_unescape_terminator_witness:
  "(0::int) \<le> 2 \<and> (2::int) \<le> int (length ''hi'') \<and> (2::int) \<le> int (length ''..'') \<and>
   decoded (take (nat 2) ''hi'') = Some ''hi'' \<and>
   fst (mjson_unescape ''hi'' 2 ''..'' 2) = - 1 \<and>
   mjson_unescape ''hi'' 2 ''...'' 3 = (2, ''hi'' @ [NUL]) \<and>
   mjson_find c_strtod zero_stack doc_xy 16 ''$.x.y'' Uninit Uninit =
     Some \<lparr>tok_ret = MJSON_TOK_STRING, ptr_out = Cell 10, len_out = Cell 4, scanned = Some (16, False)\<rparr> \<and>
   decoded (take (nat (4 - 2)) (mem_from doc_xy (10 + 1))) = Some ''hi'' \<and>
   map_option fst (mjson_find_string c_strtod zero_stack doc_xy 16 ''$.x.y'' ''..'' 2) = Some (- 1) \<and>
   mjson_find_string c_strtod zero_stack doc_xy 16 ''$.x.y'' ''...'' 3 = Some (2, ''hi'' @ [NUL])"
proof -
  let ?r = "\<lparr>tok_ret = MJSON_TOK_STRING, ptr_out = Cell 10, len_out = Cell 4, scanned = Some (16, False)\<rparr>"
  have h1: "decoded (take (nat 2) ''hi'') = Some ''hi''" by code_simp
  have h2: "mjson_find c_strtod zero_stack doc_xy 16 ''$.x.y'' Uninit Uninit = Some ?r" by code_simp
  have h3: "decoded (take (nat (4 - 2)) (mem_from doc_xy (10 + 1))) = Some ''hi''" by code_simp
  have h4: "(10::int) + 1 + (4 - 2) \<le> int (length doc_xy)" by code_simp
  note t2 = mjson_unescape_terminator [of 2 "''hi''" 2 "''..''" c_strtod zero_stack doc_xy 16 "''$.x.y''" ?r 10 4 "''hi''"]
  note t3 = mjson_unescape_terminator [of 2 "''hi''" 3 "''...''" c_strtod zero_stack doc_xy 16 "''$.x.y''" ?r 10 4 "''hi''"]
  from t2 h1 h2 h3 h4 have c2: "fst (mjson_unescape ''hi'' 2 ''..'' 2) = - 1"
    "map_option fst (mjson_find_string c_strtod zero_stack doc_xy 16 ''$.x.y'' ''..'' 2) = Some (- 1)"
    by simp_all
  from t3 h1 h2 h3 h4 have c3: "mjson_unescape ''hi'' 2 ''...'' 3 = (2, ''hi'' @ [NUL])"
    "mjson_find_string c_strtod zero_stack doc_xy 16 ''$.x.y'' ''...'' 3 = Some (2, ''hi'' @ [NUL])"
    by simp_all
  from h1 h2 h3 c2 c3 show ?thesis by simp
qed

section \<open>The depth limit\<close>

text \<open>One turn of the loop, for each kind of byte met on the way into and out of a nested value.\<close>

lemma loop_step:
  "st_i st < len \<Longrightarrow> mjson_body sd cb s len st = Continue st' \<Longrightarrow>
   mjson_loop sd cb s len st = mjson_loop sd cb s len st'"
  by (subst mjson_loop.simps) simp

lemma loop_return:
  "st_i st < len \<Longrightarrow> mjson_body sd cb s len st = Return r st' \<Longrightarrow>
   mjson_loop sd cb s len st = returned r st'"
  by (subst mjson_loop.simps) simp

lemma body_open:
  assumes "expecting st = S_VALUE" and "byte_at s (st_i st) = c" and "c = CHR ''['' \<or> c = CHR ''{''"
    and "depth st < MJSON_MAX_DEPTH"
  shows "\<exists>st'. mjson_body sd cb s len st = Continue st' \<and>
           expecting st' = (if c = CHR ''{'' then S_KEY else S_VALUE) \<and> st_i st' = st_i st + 1 \<and>
           depth st' = depth st + 1 \<and> nesting st' = (nesting st)(depth st := c) \<and> oob st' = oob st"
  using assms
  by (auto simp: mjson_body_def scan_value_def loop_end_def MJSONCALL_def Let_def split: option.split)

lemma body_too_deep:
  assumes "expecting st = S_VALUE" and "byte_at s (st_i st) = c" and "c = CHR ''['' \<or> c = CHR ''{''"
    and "depth st \<ge> MJSON_MAX_DEPTH"
  shows "\<exists>st'. mjson_body sd cb s len st = Return MJSON_ERROR_TOO_DEEP st' \<and> oob st' = oob st"
  using assms
  by (auto simp: mjson_body_def scan_value_def Let_def)

lemma body_key:
  assumes "expecting st = S_KEY" and "byte_at s (st_i st) = CHR 0x22"
    and "mjson_pass_string (mem_from s (st_i st + 1)) (len - st_i st - 1) = n" and "0 \<le> n"
  shows "\<exists>st'. mjson_body sd cb s len st = Continue st' \<and>
           expecting st' = S_COLON \<and> st_i st' = st_i st + n + 2 \<and>
           depth st' = depth st \<and> nesting st' = nesting st \<and> oob st' = oob st"
  using assms
  by (auto simp: mjson_body_def scan_key_def loop_end_def MJSONCALL_def Let_def split: option.split)

lemma body_colon:
  assumes "expecting st = S_COLON" and "byte_at s (st_i st) = CHR '':''"
  shows "\<exists>st'. mjson_body sd cb s len st = Continue st' \<and>
           expecting st' = S_VALUE \<and> st_i st' = st_i st + 1 \<and>
           depth st' = depth st \<and> nesting st' = nesting st \<and> oob st' = oob st"
  using assms
  by (auto simp: mjson_body_def scan_colon_def loop_end_def MJSONCALL_def Let_def split: option.split)

lemma body_close:
  assumes "expecting st = S_COMMA_OR_EOO" and "byte_at s (st_i st) = c"
    and "c = CHR '']'' \<or> c = CHR ''}''" and "0 < depth st" and "depth st \<le> MJSON_MAX_DEPTH"
    and "(of_char c :: int) = of_char (nesting st (depth st - 1)) + 2"
  shows "if depth st = 1
         then \<exists>st'. mjson_body sd cb s len st = Return (st_i st + 1) st' \<and> oob st' = oob st
         else \<exists>st'. mjson_body sd cb s len st = Continue st' \<and>
           expecting st' = S_COMMA_OR_EOO \<and> st_i st' = st_i st + 1 \<and>
           depth st' = depth st - 1 \<and> nesting st' = nesting st \<and> oob st' = oob st"
  using assms
  by (auto simp: mjson_body_def scan_comma_or_eoo_def MJSONEOO_def nesting_chk_def then_do_def
      loop_end_def MJSONCALL_def Let_def split: option.split)

lemma byte_at_mid_nth: "j < length v \<Longrightarrow> byte_at (pre @ v @ post) (int (length pre) + int j) = v ! j"
  by (simp add: byte_at_def nth_append nat_int_add)

lemma memcmp_lit_mid: "memcmp_lit (pre @ v @ post) (int (length pre)) v"
  unfolding memcmp_lit_def
  by (intro nth_equalityI) (simp_all add: byte_at_mid_nth)

lemma mem_from_append: "mem_from (pre @ rest) (int (length pre)) = rest"
  by (simp add: mem_from_def)

lemma body_empty_array:
  assumes "expecting st = S_VALUE" and "byte_at s (st_i st) = CHR '']''"
    and "1 < depth st" and "depth st \<le> MJSON_MAX_DEPTH"
    and "nesting st (depth st - 1) = CHR ''[''"
  shows "\<exists>st'. mjson_body sd cb s len st = Continue st' \<and>
           expecting st' = S_COMMA_OR_EOO \<and> st_i st' = st_i st + 1 \<and>
           depth st' = depth st - 1 \<and> nesting st' = nesting st \<and> oob st' = oob st"
  using assms
  by (auto simp: mjson_body_def scan_value_def scan_atom_def MJSONEOO_def nesting_chk_def then_do_def
      loop_end_def MJSONCALL_def Let_def split: option.split)

lemma body_literal:
  assumes "expecting st = S_VALUE" and "v = ''true'' \<or> v = ''null'' \<or> v = ''false''"
    and "memcmp_lit s (st_i st) v" and "byte_at s (st_i st) = hd v"
    and "st_i st + int (length v) \<le> len" and "depth st \<noteq> 0"
  shows "\<exists>st'. mjson_body sd cb s len st = Continue st' \<and>
           expecting st' = S_COMMA_OR_EOO \<and> st_i st' = st_i st + int (length v) \<and>
           depth st' = depth st \<and> nesting st' = nesting st \<and> oob st' = oob st"
proof -
  consider (t) "v = ''true''" | (n) "v = ''null''" | (f) "v = ''false''" using assms(2) by blast
  then show ?thesis
  proof cases
    case t
    then have "byte_at s (st_i st) = CHR ''t''" "st_i st + 3 < len" "memcmp_lit s (st_i st) ''true''"
      using assms(3,4,5) by simp_all
    then show ?thesis using assms(1,6) t
      by (simp add: mjson_body_def scan_value_def scan_atom_def then_do_def loop_end_def MJSONCALL_def
          Let_def split: option.split)
  next
    case n
    then have "byte_at s (st_i st) = CHR ''n''" "st_i st + 3 < len" "memcmp_lit s (st_i st) ''null''"
      using assms(3,4,5) by simp_all
    then show ?thesis using assms(1,6) n
      by (simp add: mjson_body_def scan_value_def scan_atom_def then_do_def loop_end_def MJSONCALL_def
          Let_def split: option.split)
  next
    case f
    then have "byte_at s (st_i st) = CHR ''f''" "st_i st + 4 < len" "memcmp_lit s (st_i st) ''false''"
      using assms(3,4,5) by simp_all
    then show ?thesis using assms(1,6) f
      by (simp add: mjson_body_def scan_value_def scan_atom_def then_do_def loop_end_def MJSONCALL_def
          Let_def split: option.split)
  qed
qed

lemma open_level:
  assumes "level_ok l" and "expecting st = S_VALUE" and "st_i st = int (length pre)"
    and "depth st < MJSON_MAX_DEPTH" and "int (length pre + length (opener l)) \<le> len"
  shows "\<exists>st'. mjson_loop sd cb (pre @ opener l @ post) len st =
                mjson_loop sd cb (pre @ opener l @ post) len st' \<and>
           expecting st' = S_VALUE \<and> st_i st' = int (length pre + length (opener l)) \<and>
           depth st' = depth st + 1 \<and> nesting st' = (nesting st)(depth st := bracket l) \<and>
           oob st' = oob st"
proof (cases l)
  case Arr
  let ?s = "pre @ opener l @ post"
  have c: "byte_at ?s (st_i st) = CHR ''[''"
    using Arr assms(3) byte_at_append_mid [of pre "CHR ''[''" post] by simp
  from body_open [OF assms(2) c _ assms(4), of sd cb len]
  obtain st' where b: "mjson_body sd cb ?s len st = Continue st'"
    and p: "expecting st' = S_VALUE" "st_i st' = st_i st + 1" "depth st' = depth st + 1"
      "nesting st' = (nesting st)(depth st := CHR ''['')" "oob st' = oob st"
    by auto
  have "st_i st < len" using assms(3,5) Arr by simp
  from loop_step [OF this b] p Arr assms(3) show ?thesis by auto
next
  case (Obj k)
  let ?s = "pre @ opener l @ post"
  have sk: "string_body k" using assms(1) Obj by simp
  have s: "?s = pre @ CHR ''{'' # CHR 0x22 # k @ CHR 0x22 # CHR '':'' # post" using Obj by simp
  have l: "int (length pre) + int (length k) + 4 \<le> len" using assms(5) Obj by simp
  have c1: "byte_at ?s (st_i st) = CHR ''{''"
    using s assms(3) byte_at_append_mid [of pre "CHR ''{''"] by simp
  from body_open [OF assms(2) c1 _ assms(4), of sd cb len]
  obtain st1 where b1: "mjson_body sd cb ?s len st = Continue st1"
    and p1: "expecting st1 = S_KEY" "st_i st1 = st_i st + 1" "depth st1 = depth st + 1"
      "nesting st1 = (nesting st)(depth st := CHR ''{'')" "oob st1 = oob st"
    by auto
  have e1: "mjson_loop sd cb ?s len st = mjson_loop sd cb ?s len st1"
    using l assms(3) by (intro loop_step [OF _ b1]) simp
  have i1: "st_i st1 = int (length (pre @ [CHR ''{'']))" using p1(2) assms(3) by simp
  have c2: "byte_at ?s (st_i st1) = CHR 0x22"
    unfolding i1 using s byte_at_append_mid [of "pre @ [CHR ''{'']" "CHR 0x22"] by simp
  have "st_i st1 + 1 = int (length (pre @ [CHR ''{'', CHR 0x22]))" using i1 by simp
  then have m: "mem_from ?s (st_i st1 + 1) = k @ CHR 0x22 # CHR '':'' # post"
    using s mem_from_append [of "pre @ [CHR ''{'', CHR 0x22]" "k @ CHR 0x22 # CHR '':'' # post"]
    by simp
  have n: "mjson_pass_string (mem_from ?s (st_i st1 + 1)) (len - st_i st1 - 1) = int (length k)"
    unfolding m using sk l i1 by (intro mjson_pass_string_body) simp_all
  from body_key [OF p1(1) c2 n, of sd cb]
  obtain st2 where b2: "mjson_body sd cb ?s len st1 = Continue st2"
    and p2: "expecting st2 = S_COLON" "st_i st2 = st_i st1 + int (length k) + 2"
      "depth st2 = depth st1" "nesting st2 = nesting st1" "oob st2 = oob st1"
    by auto
  have e2: "mjson_loop sd cb ?s len st1 = mjson_loop sd cb ?s len st2"
    using l i1 by (intro loop_step [OF _ b2]) simp
  have i2: "st_i st2 = int (length (pre @ CHR ''{'' # CHR 0x22 # k @ [CHR 0x22]))"
    using p2(2) i1 by simp
  have c3: "byte_at ?s (st_i st2) = CHR '':''"
    unfolding i2 using s byte_at_append_mid [of "pre @ CHR ''{'' # CHR 0x22 # k @ [CHR 0x22]" "CHR '':''" post]
    by simp
  from body_colon [OF p2(1) c3, of sd cb len]
  obtain st3 where b3: "mjson_body sd cb ?s len st2 = Continue st3"
    and p3: "expecting st3 = S_VALUE" "st_i st3 = st_i st2 + 1"
      "depth st3 = depth st2" "nesting st3 = nesting st2" "oob st3 = oob st2"
    by auto
  have e3: "mjson_loop sd cb ?s len st2 = mjson_loop sd cb ?s len st3"
    using l i2 by (intro loop_step [OF _ b3]) simp
  have "st_i st3 = int (length pre + length (opener l))" using p3(2) i2 Obj by simp
  with e1 e2 e3 p1 p2 p3 Obj show ?thesis by auto
qed

lemma body_empty_object:
  assumes "expecting st = S_KEY" and "byte_at s (st_i st) = CHR ''}''"
    and "1 < depth st" and "depth st \<le> MJSON_MAX_DEPTH"
    and "nesting st (depth st - 1) = CHR ''{''"
  shows "\<exists>st'. mjson_body sd cb s len st = Continue st' \<and>
           expecting st' = S_COMMA_OR_EOO \<and> st_i st' = st_i st + 1 \<and>
           depth st' = depth st - 1 \<and> nesting st' = nesting st \<and> oob st' = oob st"
  using assms
  by (auto simp: mjson_body_def scan_key_def MJSONEOO_def nesting_chk_def then_do_def
      loop_end_def MJSONCALL_def Let_def split: option.split)

lemma open_levels:
  "list_all level_ok ls \<Longrightarrow> expecting st = S_VALUE \<Longrightarrow> st_i st = int (length pre) \<Longrightarrow>
   depth st + int (length ls) \<le> MJSON_MAX_DEPTH \<Longrightarrow>
   int (length pre + length (concat (map opener ls))) \<le> len \<Longrightarrow>
   \<exists>st'. mjson_loop sd cb (pre @ concat (map opener ls) @ post) len st =
         mjson_loop sd cb (pre @ concat (map opener ls) @ post) len st' \<and>
         expecting st' = S_VALUE \<and> st_i st' = int (length pre + length (concat (map opener ls))) \<and>
         depth st' = depth st + int (length ls) \<and> oob st' = oob st"
proof (induction ls arbitrary: pre st)
  case Nil
  then show ?case by auto
next
  case (Cons l ls)
  let ?s = "pre @ concat (map opener (l # ls)) @ post"
  have s: "?s = pre @ opener l @ (concat (map opener ls) @ post)" by simp
  have "level_ok l" "depth st < MJSON_MAX_DEPTH" "int (length pre + length (opener l)) \<le> len"
    using Cons.prems by auto
  from open_level [OF this(1) Cons.prems(2,3) this(2,3), where post = "concat (map opener ls) @ post" and sd = sd and cb = cb]
  obtain st1 where e1: "mjson_loop sd cb ?s len st = mjson_loop sd cb ?s len st1"
    and p1: "expecting st1 = S_VALUE" "st_i st1 = int (length (pre @ opener l))"
      "depth st1 = depth st + 1" "oob st1 = oob st"
    unfolding s by auto
  have s2: "?s = (pre @ opener l) @ concat (map opener ls) @ post" by simp
  have "list_all level_ok ls" "depth st1 + int (length ls) \<le> MJSON_MAX_DEPTH"
    "int (length (pre @ opener l) + length (concat (map opener ls))) \<le> len"
    using Cons.prems p1 by auto
  from Cons.IH [OF this(1) p1(1,2) this(2,3)]
  obtain st2 where e2: "mjson_loop sd cb ?s len st1 = mjson_loop sd cb ?s len st2"
    and p2: "expecting st2 = S_VALUE"
      "st_i st2 = int (length (pre @ opener l) + length (concat (map opener ls)))"
      "depth st2 = depth st1 + int (length ls)" "oob st2 = oob st1"
    unfolding s2 by auto
  show ?case
    using e1 e2 p1 p2 by (intro exI [of _ st2]) auto
qed

lemma of_char_closer: "(of_char (closer l) :: int) = of_char (bracket l) + 2"
  by (cases l) simp_all

lemma closer_cases: "closer l = CHR '']'' \<or> closer l = CHR ''}''"
  by (cases l) simp_all

lemma scan_leaf:
  assumes "leaf_depth v = Some k" and "expecting st = S_VALUE" and "st_i st = int (length pre)"
    and "0 < depth st" and "depth st + int k \<le> MJSON_MAX_DEPTH"
    and "int (length pre + length v) \<le> len"
  shows "\<exists>st'. mjson_loop sd cb (pre @ v @ post) len st = mjson_loop sd cb (pre @ v @ post) len st' \<and>
           expecting st' = S_COMMA_OR_EOO \<and> st_i st' = int (length pre + length v) \<and>
           depth st' = depth st \<and> oob st' = oob st \<and>
           (\<forall>j. j < depth st \<longrightarrow> nesting st' j = nesting st j)"
proof -
  let ?s = "pre @ v @ post"
  have "(v = ''true'' \<or> v = ''null'' \<or> v = ''false'') \<and> k = 0 \<or>
        v = ''[]'' \<and> k = 1 \<or> v = ''{}'' \<and> k = 1"
  proof (cases "v = ''true'' \<or> v = ''false'' \<or> v = ''null''")
    case True
    then have "leaf_depth v = Some 0" by (simp only: leaf_depth.simps if_True)
    with assms(1) have "k = 0" by simp
    with True show ?thesis by blast
  next
    case nl: False
    show ?thesis
    proof (cases "v = ''[]'' \<or> v = ''{}''")
      case True
      with nl have "leaf_depth v = Some 1" by (simp only: leaf_depth.simps if_True if_False)
      with assms(1) have "k = 1" by simp
      with True show ?thesis by blast
    next
      case False
      with nl have "leaf_depth v = None" by (simp only: leaf_depth.simps if_False)
      with assms(1) show ?thesis by simp
    qed
  qed
  then consider (lit) "v = ''true'' \<or> v = ''null'' \<or> v = ''false''" "k = 0"
    | (arr) "v = ''[]''" "k = 1" | (obj) "v = ''{}''" "k = 1"
    by blast
  then show ?thesis
  proof cases
    case lit
    have m: "memcmp_lit ?s (st_i st) v" unfolding assms(3) by (rule memcmp_lit_mid)
    have "0 < length v" using lit(1) by fastforce
    then have h: "byte_at ?s (st_i st) = hd v"
      using byte_at_mid_nth [of 0 v pre post] assms(3) by (simp add: hd_conv_nth)
    have l: "st_i st + int (length v) \<le> len" using assms(3,6) by simp
    have d: "depth st \<noteq> 0" using assms(4) by simp
    from body_literal [OF assms(2) lit(1) m h l d, of sd cb]
    obtain st' where b: "mjson_body sd cb ?s len st = Continue st'"
      and p: "expecting st' = S_COMMA_OR_EOO" "st_i st' = st_i st + int (length v)"
        "depth st' = depth st" "nesting st' = nesting st" "oob st' = oob st"
      by auto
    have "0 < int (length v)" using \<open>0 < length v\<close> by simp
    with l have "st_i st < len" by linarith
    from loop_step [OF this b] p assms(3) show ?thesis by auto
  next
    case arr
    have s: "?s = pre @ CHR ''['' # CHR '']'' # post" using arr by simp
    have l: "int (length pre) + 2 \<le> len" using assms(6) arr by simp
    have c1: "byte_at ?s (st_i st) = CHR ''[''"
      unfolding s assms(3) by (rule byte_at_append_mid)
    have d: "depth st < MJSON_MAX_DEPTH" using assms(5) arr by simp
    from body_open [OF assms(2) c1 _ d, of sd cb len]
    obtain st1 where b1: "mjson_body sd cb ?s len st = Continue st1"
      and p1: "expecting st1 = S_VALUE" "st_i st1 = st_i st + 1" "depth st1 = depth st + 1"
        "nesting st1 = (nesting st)(depth st := CHR ''['')" "oob st1 = oob st"
      by auto
    have e1: "mjson_loop sd cb ?s len st = mjson_loop sd cb ?s len st1"
      using l assms(3) by (intro loop_step [OF _ b1]) simp
    have i1: "st_i st1 = int (length (pre @ [CHR ''['']))" using p1(2) assms(3) by simp
    have c2: "byte_at ?s (st_i st1) = CHR '']''"
      unfolding i1 s using byte_at_append_mid [of "pre @ [CHR ''['']" "CHR '']''" post] by simp
    have "1 < depth st1" "depth st1 \<le> MJSON_MAX_DEPTH" "nesting st1 (depth st1 - 1) = CHR ''[''"
      using p1 assms(4,5) arr by simp_all
    from body_empty_array [OF p1(1) c2 this, of sd cb len]
    obtain st2 where b2: "mjson_body sd cb ?s len st1 = Continue st2"
      and p2: "expecting st2 = S_COMMA_OR_EOO" "st_i st2 = st_i st1 + 1" "depth st2 = depth st1 - 1"
        "nesting st2 = nesting st1" "oob st2 = oob st1"
      by auto
    have e2: "mjson_loop sd cb ?s len st1 = mjson_loop sd cb ?s len st2"
      using l i1 by (intro loop_step [OF _ b2]) simp
    show ?thesis
      using e1 e2 p1 p2 assms(3) arr by (intro exI [of _ st2]) auto
  next
    case obj
    have s: "?s = pre @ CHR ''{'' # CHR ''}'' # post" using obj by simp
    have l: "int (length pre) + 2 \<le> len" using assms(6) obj by simp
    have c1: "byte_at ?s (st_i st) = CHR ''{''"
      unfolding s assms(3) by (rule byte_at_append_mid)
    have d: "depth st < MJSON_MAX_DEPTH" using assms(5) obj by simp
    from body_open [OF assms(2) c1 _ d, of sd cb len]
    obtain st1 where b1: "mjson_body sd cb ?s len st = Continue st1"
      and p1: "expecting st1 = S_KEY" "st_i st1 = st_i st + 1" "depth st1 = depth st + 1"
        "nesting st1 = (nesting st)(depth st := CHR ''{'')" "oob st1 = oob st"
      by auto
    have e1: "mjson_loop sd cb ?s len st = mjson_loop sd cb ?s len st1"
      using l assms(3) by (intro loop_step [OF _ b1]) simp
    have i1: "st_i st1 = int (length (pre @ [CHR ''{'']))" using p1(2) assms(3) by simp
    have c2: "byte_at ?s (st_i st1) = CHR ''}''"
      unfolding i1 s using byte_at_append_mid [of "pre @ [CHR ''{'']" "CHR ''}''" post] by simp
    have "1 < depth st1" "depth st1 \<le> MJSON_MAX_DEPTH" "nesting st1 (depth st1 - 1) = CHR ''{''"
      using p1 assms(4,5) obj by simp_all
    from body_empty_object [OF p1(1) c2 this, of sd cb len]
    obtain st2 where b2: "mjson_body sd cb ?s len st1 = Continue st2"
      and p2: "expecting st2 = S_COMMA_OR_EOO" "st_i st2 = st_i st1 + 1" "depth st2 = depth st1 - 1"
        "nesting st2 = nesting st1" "oob st2 = oob st1"
      by auto
    have e2: "mjson_loop sd cb ?s len st1 = mjson_loop sd cb ?s len st2"
      using l i1 by (intro loop_step [OF _ b2]) simp
    show ?thesis
      using e1 e2 p1 p2 assms(3) obj by (intro exI [of _ st2]) auto
  qed
qed

lemma nested_scan:
  "leaf_depth v = Some k \<Longrightarrow> list_all level_ok ls \<Longrightarrow> expecting st = S_VALUE \<Longrightarrow>
   st_i st = int (length pre) \<Longrightarrow> 0 < depth st \<Longrightarrow>
   depth st + int (length ls) + int k \<le> MJSON_MAX_DEPTH \<Longrightarrow>
   int (length pre + length (nested ls v)) \<le> len \<Longrightarrow>
   \<exists>st'. mjson_loop sd cb (pre @ nested ls v @ post) len st =
         mjson_loop sd cb (pre @ nested ls v @ post) len st' \<and>
         expecting st' = S_COMMA_OR_EOO \<and> st_i st' = int (length pre + length (nested ls v)) \<and>
         depth st' = depth st \<and> oob st' = oob st \<and>
         (\<forall>j. j < depth st \<longrightarrow> nesting st' j = nesting st j)"
proof (induction ls arbitrary: pre post st)
  case Nil
  from scan_leaf [OF Nil.prems(1,3,4,5) _ _, of len sd cb post] Nil.prems(6,7)
  show ?case by simp
next
  case (Cons l ls)
  let ?s = "pre @ nested (l # ls) v @ post"
  have s1: "?s = pre @ opener l @ (nested ls v @ closer l # post)" by simp
  have "level_ok l" "depth st < MJSON_MAX_DEPTH" "int (length pre + length (opener l)) \<le> len"
    using Cons.prems by auto
  from open_level [OF this(1) Cons.prems(3,4) this(2,3),
      where post = "nested ls v @ closer l # post" and sd = sd and cb = cb]
  obtain st1 where e1: "mjson_loop sd cb ?s len st = mjson_loop sd cb ?s len st1"
    and p1: "expecting st1 = S_VALUE" "st_i st1 = int (length (pre @ opener l))"
      "depth st1 = depth st + 1" "nesting st1 = (nesting st)(depth st := bracket l)"
      "oob st1 = oob st"
    unfolding s1 by auto
  have s2: "?s = (pre @ opener l) @ nested ls v @ (closer l # post)" by simp
  have "list_all level_ok ls" "0 < depth st1"
    "depth st1 + int (length ls) + int k \<le> MJSON_MAX_DEPTH"
    "int (length (pre @ opener l) + length (nested ls v)) \<le> len"
    using Cons.prems p1 by auto
  from Cons.IH [OF Cons.prems(1) this(1) p1(1,2) this(2,3,4), of "closer l # post"]
  obtain st2 where e2: "mjson_loop sd cb ?s len st1 = mjson_loop sd cb ?s len st2"
    and p2: "expecting st2 = S_COMMA_OR_EOO"
      "st_i st2 = int (length (pre @ opener l) + length (nested ls v))"
      "depth st2 = depth st1" "oob st2 = oob st1"
      "\<forall>j. j < depth st1 \<longrightarrow> nesting st2 j = nesting st1 j"
    unfolding s2 by auto
  have i2: "st_i st2 = int (length (pre @ opener l @ nested ls v))" using p2(2) by simp
  have s3: "?s = (pre @ opener l @ nested ls v) @ closer l # post" by simp
  have c: "byte_at ?s (st_i st2) = closer l"
    unfolding i2 s3 by (rule byte_at_append_mid)
  have top: "nesting st2 (depth st2 - 1) = bracket l"
    using p2(3,5) p1(3,4) by simp
  have "0 < depth st2" "depth st2 \<le> MJSON_MAX_DEPTH" "depth st2 \<noteq> 1"
    using p2(3) p1(3) Cons.prems(5,6) by auto
  from body_close [OF p2(1) c closer_cases this(1,2), of sd cb len] this(3) top of_char_closer [of l]
  obtain st3 where b3: "mjson_body sd cb ?s len st2 = Continue st3"
    and p3: "expecting st3 = S_COMMA_OR_EOO" "st_i st3 = st_i st2 + 1" "depth st3 = depth st2 - 1"
      "nesting st3 = nesting st2" "oob st3 = oob st2"
    by auto
  have "st_i st2 < len" using i2 Cons.prems(7) by simp
  from loop_step [OF this b3] have e3: "mjson_loop sd cb ?s len st2 = mjson_loop sd cb ?s len st3" .
  have "\<forall>j. j < depth st \<longrightarrow> nesting st3 j = nesting st j"
    using p3(4) p2(5) p1(3,4) by simp
  then show ?case
    using e1 e2 e3 p1 p2 p3 i2 by (intro exI [of _ st3]) auto
qed

lemma mjson_too_deep:
  assumes "list_all level_ok ls" and "length ls = 20" and "c = CHR ''['' \<or> c = CHR ''{''"
    and "int (length (concat (map opener ls))) < len"
  shows "ret (mjson sd nest0 (concat (map opener ls) @ c # rest) len cb ud0) = MJSON_ERROR_TOO_DEEP"
proof -
  let ?s = "concat (map opener ls) @ c # rest"
  let ?st0 = "\<lparr>expecting = S_VALUE, nesting = nest0, st_i = 0, depth = 0, st_tok = 0, ud = ud0, oob = False\<rparr>"
  have "expecting ?st0 = S_VALUE" "st_i ?st0 = int (length ([]::string))"
    "depth ?st0 + int (length ls) \<le> MJSON_MAX_DEPTH"
    "int (length ([]::string) + length (concat (map opener ls))) \<le> len"
    using assms(2,4) by (simp_all add: MJSON_MAX_DEPTH_def)
  from open_levels [OF assms(1) this, of sd cb "c # rest"]
  obtain st1 where e1: "mjson_loop sd cb ?s len ?st0 = mjson_loop sd cb ?s len st1"
    and p1: "expecting st1 = S_VALUE" "st_i st1 = int (length (concat (map opener ls)))"
      "depth st1 = int (length ls)"
    by auto
  have c: "byte_at ?s (st_i st1) = c" unfolding p1(2) by (rule byte_at_append_mid)
  have "depth st1 \<ge> MJSON_MAX_DEPTH" using p1(3) assms(2) by (simp add: MJSON_MAX_DEPTH_def)
  from body_too_deep [OF p1(1) c assms(3) this, of sd cb len]
  obtain st2 where b2: "mjson_body sd cb ?s len st1 = Return MJSON_ERROR_TOO_DEEP st2" by auto
  have "st_i st1 < len" using p1(2) assms(4) by simp
  from loop_return [OF this b2] e1 show ?thesis
    by (simp add: mjson_def returned_def)
qed

lemma mjson_nested_ok:
  assumes "list_all level_ok (l # ls)" and "leaf_depth v = Some k" and "length (l # ls) + k \<le> 20"
    and "int (length (nested (l # ls) v)) \<le> len"
  shows "ret (mjson sd nest0 (nested (l # ls) v @ rest) len cb ud0) = int (length (nested (l # ls) v)) \<and>
         \<not> stack_oob (mjson sd nest0 (nested (l # ls) v @ rest) len cb ud0)"
proof -
  let ?s = "nested (l # ls) v @ rest"
  let ?st0 = "\<lparr>expecting = S_VALUE, nesting = nest0, st_i = 0, depth = 0, st_tok = 0, ud = ud0, oob = False\<rparr>"
  have s1: "?s = [] @ opener l @ (nested ls v @ closer l # rest)" by simp
  have "level_ok l" "expecting ?st0 = S_VALUE" "st_i ?st0 = int (length ([]::string))"
    "depth ?st0 < MJSON_MAX_DEPTH" "int (length ([]::string) + length (opener l)) \<le> len"
    using assms(1,4) by (simp_all add: MJSON_MAX_DEPTH_def)
  from open_level [OF this, where post = "nested ls v @ closer l # rest" and sd = sd and cb = cb]
  obtain st1 where e1: "mjson_loop sd cb ?s len ?st0 = mjson_loop sd cb ?s len st1"
    and p1: "expecting st1 = S_VALUE" "st_i st1 = int (length (opener l))"
      "depth st1 = 1" "nesting st1 = nest0(0 := bracket l)" "\<not> oob st1"
    unfolding s1 by auto
  have s2: "?s = opener l @ nested ls v @ (closer l # rest)" by simp
  have "list_all level_ok ls" "0 < depth st1"
    "depth st1 + int (length ls) + int k \<le> MJSON_MAX_DEPTH"
    "int (length (opener l) + length (nested ls v)) \<le> len"
    using assms(1,3,4) p1(3) by (simp_all add: MJSON_MAX_DEPTH_def)
  from nested_scan [OF assms(2) this(1) p1(1,2) this(2,3,4), of sd cb "closer l # rest"]
  obtain st2 where e2: "mjson_loop sd cb ?s len st1 = mjson_loop sd cb ?s len st2"
    and p2: "expecting st2 = S_COMMA_OR_EOO"
      "st_i st2 = int (length (opener l) + length (nested ls v))"
      "depth st2 = depth st1" "oob st2 = oob st1"
      "\<forall>j. j < depth st1 \<longrightarrow> nesting st2 j = nesting st1 j"
    unfolding s2 by auto
  have i2: "st_i st2 = int (length (opener l @ nested ls v))" using p2(2) by simp
  have s3: "?s = (opener l @ nested ls v) @ closer l # rest" by simp
  have c: "byte_at ?s (st_i st2) = closer l"
    unfolding i2 s3 by (rule byte_at_append_mid)
  have top: "nesting st2 (depth st2 - 1) = bracket l"
    using p2(3,5) p1(3,4) by simp
  have "0 < depth st2" "depth st2 \<le> MJSON_MAX_DEPTH" "depth st2 = 1"
    using p2(3) p1(3) by (simp_all add: MJSON_MAX_DEPTH_def)
  from body_close [OF p2(1) c closer_cases this(1,2), of sd cb len] this(3) top of_char_closer [of l]
  obtain st3 where b3: "mjson_body sd cb ?s len st2 = Return (st_i st2 + 1) st3"
    and p3: "oob st3 = oob st2"
    by auto
  have "st_i st2 < len" using i2 assms(4) by simp
  from loop_return [OF this b3] e1 e2 p1(5) p2(4) p3 i2 show ?thesis
    by (simp add: mjson_def returned_def)
qed

text \<open>
  Claim C3. With the maximum depth of 20: an input that opens 21 levels, arrays or
  objects in any mix, returns \<open>MJSON_ERROR_TOO_DEEP\<close>; a document nested at most 20
  levels deep around a literal or an empty container, in particular one nested exactly
  20 deep, is accepted, and \<open>mjson\<close> returns its length without leaving the bounds
  of \<open>nesting\<close>.
\<close>

theorem mjson_depth_limit:
  "(list_all level_ok ls \<and> length ls = 20 \<and> (c = CHR ''['' \<or> c = CHR ''{'') \<and>
    int (length (concat (map opener ls))) < len \<longrightarrow>
      ret (mjson sd nest0 (concat (map opener ls) @ c # rest) len cb ud0) = MJSON_ERROR_TOO_DEEP) \<and>
   (list_all level_ok (l # ls') \<and> leaf_depth v = Some k \<and> length (l # ls') + k \<le> 20 \<and>
    int (length (nested (l # ls') v)) \<le> len' \<longrightarrow>
      ret (mjson sd nest0 (nested (l # ls') v @ rest') len' cb ud0) = int (length (nested (l # ls') v)) \<and>
      \<not> stack_oob (mjson sd nest0 (nested (l # ls') v @ rest') len' cb ud0))"
  using mjson_too_deep [of ls c len sd nest0 rest cb ud0]
    mjson_nested_ok [of l ls' v k len' sd nest0 rest' cb ud0]
  by blast

theorem mjson_depth_limit_witness:
  "list_all level_ok (replicate 20 Arr) \<and> length (replicate 20 Arr) = 20 \<and>
   int (length (concat (map opener (replicate 20 Arr)))) < 21 \<and>
   concat (map opener (replicate 20 Arr)) @ CHR ''['' # [] = replicate 21 (CHR ''['') \<and>
   ret (mjson c_strtod zero_stack (concat (map opener (replicate 20 Arr)) @ CHR ''['' # []) 21 no_sink ()) =
     MJSON_ERROR_TOO_DEEP \<and>
   list_all level_ok (Arr # replicate 18 Arr) \<and> leaf_depth ''[]'' = Some 1 \<and>
   length (Arr # replicate 18 Arr) + 1 \<le> 20 \<and>
   int (length (nested (Arr # replicate 18 Arr) ''[]'')) \<le> 40 \<and>
   nested (Arr # replicate 18 Arr) ''[]'' @ [] = replicate 20 (CHR ''['') @ replicate 20 (CHR '']'') \<and>
   ret (mjson c_strtod zero_stack (nested (Arr # replicate 18 Arr) ''[]'' @ []) 40 no_sink ()) = 40"
proof -
  have h1: "list_all level_ok (replicate 20 Arr)" by code_simp
  have h2: "length (replicate 20 Arr) = 20" by simp
  have h3: "int (length (concat (map opener (replicate 20 Arr)))) < 21" by code_simp
  have h4: "list_all level_ok (Arr # replicate 18 Arr)" by code_simp
  have h5: "leaf_depth ''[]'' = Some 1" by code_simp
  have h6: "length (Arr # replicate 18 Arr) + 1 \<le> 20" by simp
  have h7: "int (length (nested (Arr # replicate 18 Arr) ''[]'')) \<le> 40" by code_simp
  have e1: "concat (map opener (replicate 20 Arr)) @ CHR ''['' # [] = replicate 21 (CHR ''['')"
    by code_simp
  have e2: "nested (Arr # replicate 18 Arr) ''[]'' @ [] = replicate 20 (CHR ''['') @ replicate 20 (CHR '']'')"
    by code_simp
  note t = mjson_depth_limit [of "replicate 20 Arr" "CHR ''[''" 21 c_strtod zero_stack "[]" no_sink "()"
      Arr "replicate 18 Arr" "''[]''" 1 40 "[]"]
  from t h1 h2 h3 have c1:
    "ret (mjson c_strtod zero_stack (concat (map opener (replicate 20 Arr)) @ CHR ''['' # []) 21 no_sink ()) =
     MJSON_ERROR_TOO_DEEP"
    by blast
  from t h4 h5 h6 h7 have c2:
    "ret (mjson c_strtod zero_stack (nested (Arr # replicate 18 Arr) ''[]'' @ []) 40 no_sink ()) =
     int (length (nested (Arr # replicate 18 Arr) ''[]''))"
    by blast
  have l: "int (length (nested (Arr # replicate 18 Arr) ''[]'')) = 40" by code_simp
  from h1 h2 h3 h4 h5 h6 h7 e1 e2 c1 c2 [unfolded l] show ?thesis by blast
qed

section \<open>Where the scanner does respect the length\<close>

text \<open>
  The branches other than the number branch never look past \<open>len\<close>. When the memory
  of the buffer ends at \<open>len\<close> and \<open>strtod\<close> consumes no more than the C string it
  is given, a non-negative result of \<open>mjson\<close> is at most \<open>len\<close>. The result 3 for
  \<open>len = 1\<close> above comes from the bytes that follow the slice.
\<close>

lemma pass_string_loop_bound:
  "0 \<le> pass_string_loop s len i \<Longrightarrow> i \<le> pass_string_loop s len i \<and> pass_string_loop s len i < len"
proof (induction s len i rule: pass_string_loop.induct)
  case (1 s len i)
  show ?case
  proof (cases "i < len")
    case False
    with "1.prems" show ?thesis
      by (subst (asm) pass_string_loop.simps) (simp add: MJSON_ERROR_INVALID_INPUT_def)
  next
    case True
    show ?thesis
    proof (cases "byte_at s i = CHR 0x5C \<and> i + 1 < len \<and> mjson_esc (of_char (byte_at s (i + 1))) 1 \<noteq> 0")
      case esc: True
      then have e: "pass_string_loop s len i = pass_string_loop s len (i + 1 + 1)"
        using True by (subst pass_string_loop.simps) simp
      with "1.IH"(1) [OF True esc] "1.prems" show ?thesis by simp
    next
      case nesc: False
      show ?thesis
      proof (cases "byte_at s i = NUL")
        case True
        with \<open>i < len\<close> have "pass_string_loop s len i = MJSON_ERROR_INVALID_INPUT"
          by (subst pass_string_loop.simps) (simp add: NUL_def)
        with "1.prems" show ?thesis by (simp add: MJSON_ERROR_INVALID_INPUT_def)
      next
        case nn: False
        show ?thesis
        proof (cases "byte_at s i = CHR 0x22")
          case True
          with \<open>i < len\<close> nesc nn have "pass_string_loop s len i = i"
            by (subst pass_string_loop.simps) auto
          with \<open>i < len\<close> show ?thesis by simp
        next
          case nq: False
          with \<open>i < len\<close> nesc nn have e: "pass_string_loop s len i = pass_string_loop s len (i + 1)"
            by (subst pass_string_loop.simps) auto
          with "1.IH"(2) [OF \<open>i < len\<close> nesc nn nq] "1.prems" show ?thesis by simp
        qed
      qed
    qed
  qed
qed

lemma mjson_body_return_bound:
  assumes "\<And>str. snd (sd str) \<le> length str" and "int (length s) \<le> len" and "st_i st < len"
    and "0 \<le> st_i st"
    and "mjson_body sd cb s len st = Return r st'" and "0 \<le> r"
  shows "r \<le> len"
proof -
  have n: "int (snd (sd (c_str s (st_i st)))) \<le> len - st_i st"
  proof -
    have "length (c_str s (st_i st)) \<le> length s - nat (st_i st)"
      using assms(4) length_takeWhile_le [of "\<lambda>c. c \<noteq> NUL" "drop (nat (st_i st)) s"]
      by (simp add: c_str_def mem_from_def)
    with assms(1) [of "c_str s (st_i st)"]
    have "snd (sd (c_str s (st_i st))) \<le> length s - nat (st_i st)" by simp
    then have "int (snd (sd (c_str s (st_i st)))) \<le> int (length s - nat (st_i st))" by simp
    also have "\<dots> \<le> len - st_i st" using assms(2,3,4) by (cases "nat (st_i st) \<le> length s") auto
    finally show ?thesis .
  qed
  have p: "0 \<le> mjson_pass_string (mem_from s (st_i st + 1)) (len - st_i st - 1) \<Longrightarrow>
           mjson_pass_string (mem_from s (st_i st + 1)) (len - st_i st - 1) < len - st_i st - 1"
    using pass_string_loop_bound [of "mem_from s (st_i st + 1)" "len - st_i st - 1" 0]
    by (simp add: mjson_pass_string_def)
  show ?thesis
    using assms(3,5,6) n p
    by (auto simp: mjson_body_def scan_value_def scan_key_def scan_colon_def scan_comma_or_eoo_def
       scan_atom_def loop_end_def MJSONEOO_def nesting_chk_def then_do_def Let_def
       MJSON_ERROR_INVALID_INPUT_def MJSON_ERROR_TOO_DEEP_def
       split: if_splits expect.splits outcome.splits)
qed


lemma mjson_body_continue_nonneg:
  assumes "0 \<le> st_i st" and "mjson_body sd cb s len st = Continue st'"
  shows "0 \<le> st_i st'"
  using assms
  by (auto simp: mjson_body_def scan_value_def scan_key_def scan_colon_def scan_comma_or_eoo_def
       scan_atom_def loop_end_def MJSONCALL_def MJSONEOO_def nesting_chk_def then_do_def Let_def
       split: if_splits expect.splits option.splits outcome.splits)

lemma mjson_loop_bound:
  "(\<And>str. snd (sd str) \<le> length str) \<Longrightarrow> int (length s) \<le> len \<Longrightarrow> 0 \<le> st_i st \<Longrightarrow>
   0 \<le> ret (mjson_loop sd cb s len st) \<Longrightarrow> ret (mjson_loop sd cb s len st) \<le> len"
proof (induction sd cb s len st rule: mjson_loop.induct)
  case (1 sd cb s len st)
  show ?case
  proof (cases "st_i st < len")
    case False
    with "1.prems"(4) show ?thesis
      by (subst (asm) mjson_loop.simps) (simp add: returned_def MJSON_ERROR_INVALID_INPUT_def)
  next
    case True
    show ?thesis
    proof (cases "mjson_body sd cb s len st")
      case (Return r st')
      with True have e: "mjson_loop sd cb s len st = returned r st'" by (rule loop_return)
      with "1.prems"(4) have "0 \<le> r" by (simp add: returned_def)
      from mjson_body_return_bound [OF "1.prems"(1,2) True "1.prems"(3) Return this] e
      show ?thesis by (simp add: returned_def)
    next
      case (Continue st')
      with True have e: "mjson_loop sd cb s len st = mjson_loop sd cb s len st'" by (rule loop_step)
      have "0 \<le> st_i st'" using "1.prems"(3) Continue by (rule mjson_body_continue_nonneg)
      from "1.IH" [OF True Continue "1.prems"(1,2) this] "1.prems"(4) e
      show ?thesis by simp
    qed
  qed
qed

lemma mjson_within_len:
  assumes "\<And>str. snd (sd str) \<le> length str" and "int (length s) \<le> len"
    and "0 \<le> ret (mjson sd nest0 s len cb ud0)"
  shows "ret (mjson sd nest0 s len cb ud0) \<le> len"
  using assms(3) unfolding mjson_def
  by (intro mjson_loop_bound [OF assms(1,2)]) simp_all

end
